theory Spec2Isabelle
  imports Main "HOL-Library.AList"
begin

section \<open>Go runtime notions used by the hub and the bus\<close>

text \<open>
  A run-time panic of the Go program is a value of type \<open>panic\<close>; a function that can
  panic returns \<open>panic + 'a\<close>, with \<open>Inl\<close> for the panic.
\<close>

datatype panic = SendOnClosedChannel | CloseOfClosedChannel | NilDereference

text \<open>
  A buffered channel \<open>make(chan T, n)\<close>: the queued elements (oldest first), the
  capacity and the closed flag. No receiver is parked on the channel in this model, so
  a send can proceed exactly when the buffer has room (or the channel is closed, in
  which case it panics). The limit of the runtime on the size \<open>n\<close> it can allocate is
  not modelled.
\<close>

record 'a chan =
  buf :: "'a list"
  cap :: nat
  closed :: bool

definition make_chan :: "nat \<Rightarrow> 'a chan" where
  "make_chan n = \<lparr>buf = [], cap = n, closed = False\<rparr>"

text \<open>\<open>close(c)\<close>: closing a closed channel panics.\<close>

definition close_chan :: "'a chan \<Rightarrow> panic + 'a chan" where
  "close_chan c = (if closed c then Inl CloseOfClosedChannel else Inr (c\<lparr>closed := True\<rparr>))"

text \<open>
  \<open>select { case c <- v: ...; default: ... }\<close>: the non-blocking send. The result
  tells whether the send case ran.
\<close>

definition try_send :: "'a \<Rightarrow> 'a chan \<Rightarrow> panic + (bool \<times> 'a chan)" where
  "try_send v c =
     (if closed c then Inl SendOnClosedChannel
      else if length (buf c) < cap c then Inr (True, c\<lparr>buf := buf c @ [v]\<rparr>)
      else Inr (False, c))"

text \<open>
  A Go map is an association list with one entry per key; \<open>m[k] = v\<close> is
  \<open>AList.update k v m\<close>, \<open>delete(m, k)\<close> is \<open>AList.delete k m\<close>, \<open>m[k]\<close> is
  \<open>map_of m k\<close> and \<open>len(m)\<close> is \<open>length m\<close>. A \<open>range\<close> loop visits the entries in
  the order of the list; Go leaves the order unspecified, and the theorems below hold
  for every order since they quantify over the list.
\<close>

type_synonym ('k, 'v) gomap = "('k \<times> 'v) list"

definition has_key :: "('k, 'v) gomap \<Rightarrow> 'k \<Rightarrow> bool" where
  "has_key m k = (map_of m k \<noteq> None)"

section \<open>The publish/subscribe bus (internal/channel/pubsub.go)\<close>

record 'p Event =
  Topic :: string
  Payload :: 'p
  Timestamp :: nat

text \<open>
  \<open>ctx_done\<close> is whether the subscriber's context \<open>sub.ctx\<close> is cancelled (by
  \<open>sub.cancel()\<close> or through its parent context).
\<close>

record 'p Subscriber =
  ID :: string
  Topics :: "string list"
  Channel :: "'p Event chan"
  ctx_done :: bool

text \<open>
  The \<open>PubSub\<close> struct together with the part of the Go heap that holds the
  \<open>Subscriber\<close> objects: \<open>subscribers\<close> maps a topic to a map from subscriber id to
  the address of a subscriber, \<open>heap\<close> maps an address to the object there, and
  \<open>nxt\<close> is the next address that \<open>Subscribe\<close> allocates.
\<close>

record 'p PubSub =
  subscribers :: "(string, (string, nat) gomap) gomap"
  bufferSize :: int
  heap :: "nat \<rightharpoonup> 'p Subscriber"
  nxt :: nat

definition NewPubSub :: "int \<Rightarrow> 'p PubSub" where
  "NewPubSub bufferSize0 =
     \<lparr>subscribers = [],
      bufferSize = (if bufferSize0 \<le> 0 then 100 else bufferSize0),
      heap = Map.empty,
      nxt = 0\<rparr>"

text \<open>The inner map \<open>ps.subscribers[topic]\<close>; a missing topic reads as the nil map.\<close>

definition topic_subs :: "(string, (string, nat) gomap) gomap \<Rightarrow> string \<Rightarrow> (string, nat) gomap" where
  "topic_subs reg topic = (case map_of reg topic of None \<Rightarrow> [] | Some subs \<Rightarrow> subs)"

text \<open>The loop of \<open>Subscribe\<close> over \<open>topics\<close>.\<close>

fun subscribe_topics ::
  "string \<Rightarrow> nat \<Rightarrow> string list \<Rightarrow> (string, (string, nat) gomap) gomap
     \<Rightarrow> (string, (string, nat) gomap) gomap" where
  "subscribe_topics sid sub [] reg = reg"
| "subscribe_topics sid sub (topic # topics) reg =
     subscribe_topics sid sub topics
       (AList.update topic (AList.update sid sub (topic_subs reg topic)) reg)"

text \<open>
  \<open>Subscribe(ctx, id, topics...)\<close>, with \<open>sid\<close> for the parameter \<open>id\<close>;
  \<open>parent_done\<close> is whether \<open>ctx\<close> is already cancelled. Returns the address of the
  new subscriber.
\<close>

definition Subscribe :: "bool \<Rightarrow> string \<Rightarrow> string list \<Rightarrow> 'p PubSub \<Rightarrow> nat \<times> 'p PubSub" where
  "Subscribe parent_done sid topics ps =
     (let sub = nxt ps;
          obj = \<lparr>ID = sid, Topics = topics,
                 Channel = make_chan (nat (bufferSize ps)), ctx_done = parent_done\<rparr>
      in (sub, ps\<lparr>subscribers := subscribe_topics sid sub topics (subscribers ps),
                  heap := (heap ps)(sub \<mapsto> obj),
                  nxt := Suc sub\<rparr>))"

text \<open>The loop of \<open>Unsubscribe\<close> over \<open>sub.Topics\<close>.\<close>

fun unsubscribe_topics ::
  "string \<Rightarrow> string list \<Rightarrow> (string, (string, nat) gomap) gomap
     \<Rightarrow> (string, (string, nat) gomap) gomap" where
  "unsubscribe_topics sid [] reg = reg"
| "unsubscribe_topics sid (topic # topics) reg =
     unsubscribe_topics sid topics
       (case map_of reg topic of
          None \<Rightarrow> reg
        | Some subs \<Rightarrow>
            (let subs' = AList.delete sid subs
             in if length subs' = 0 then AList.delete topic reg
                else AList.update topic subs' reg))"

text \<open>
  \<open>Unsubscribe(sub)\<close>: the registry loop, then \<open>sub.cancel()\<close>, then
  \<open>close(sub.Channel)\<close>.
\<close>

definition Unsubscribe :: "nat \<Rightarrow> 'p PubSub \<Rightarrow> panic + 'p PubSub" where
  "Unsubscribe sub ps =
     (case heap ps sub of
        None \<Rightarrow> Inl NilDereference
      | Some obj \<Rightarrow>
          (let reg = unsubscribe_topics (ID obj) (Topics obj) (subscribers ps);
               obj1 = obj\<lparr>ctx_done := True\<rparr>
           in case close_chan (Channel obj1) of
                Inl e \<Rightarrow> Inl e
              | Inr ch \<Rightarrow>
                  Inr (ps\<lparr>subscribers := reg, heap := (heap ps)(sub \<mapsto> obj1\<lparr>Channel := ch\<rparr>)\<rparr>)))"

text \<open>
  The loop of \<open>Publish\<close> over the subscribers of the topic. Its \<open>select\<close> has the
  cases \<open><-sub.ctx.Done()\<close>, \<open>sub.Channel <- event\<close> and \<open>default\<close>; when both
  communications can proceed Go picks one of them at random, and \<open>pick sub\<close> says
  whether the send is the one picked. A send on a closed channel can proceed, and
  panics. An address that holds no object stands for a nil pointer.
\<close>

fun publish_loop ::
  "(nat \<Rightarrow> bool) \<Rightarrow> 'p Event \<Rightarrow> nat list \<Rightarrow> (nat \<rightharpoonup> 'p Subscriber) \<Rightarrow> int
     \<Rightarrow> panic + ((nat \<rightharpoonup> 'p Subscriber) \<times> int)" where
  "publish_loop pick event [] hp sent = Inr (hp, sent)"
| "publish_loop pick event (sub # subs) hp sent =
     (case hp sub of
        None \<Rightarrow> Inl NilDereference
      | Some obj \<Rightarrow>
          (let done_ready = ctx_done obj;
               send_ready = (closed (Channel obj) \<or> length (buf (Channel obj)) < cap (Channel obj))
           in if done_ready \<and> \<not> (send_ready \<and> pick sub) then
                publish_loop pick event subs hp sent
              else if send_ready then
                (if closed (Channel obj) then Inl SendOnClosedChannel
                 else publish_loop pick event subs
                        (hp(sub \<mapsto> obj\<lparr>Channel := (Channel obj)\<lparr>buf := buf (Channel obj) @ [event]\<rparr>\<rparr>))
                        (sent + 1))
              else publish_loop pick event subs hp sent))"

text \<open>\<open>Publish(topic, payload)\<close>; \<open>now\<close> is the value of \<open>time.Now()\<close>.\<close>

definition Publish ::
  "(nat \<Rightarrow> bool) \<Rightarrow> nat \<Rightarrow> string \<Rightarrow> 'p \<Rightarrow> 'p PubSub \<Rightarrow> panic + ('p PubSub \<times> int)" where
  "Publish pick now topic payload ps =
     (let event = \<lparr>Topic = topic, Payload = payload, Timestamp = now\<rparr>;
          subs = topic_subs (subscribers ps) topic
      in if length subs = 0 then Inr (ps, 0)
         else (case publish_loop pick event (map snd subs) (heap ps) 0 of
                 Inl e \<Rightarrow> Inl e
               | Inr (hp, sent) \<Rightarrow> Inr (ps\<lparr>heap := hp\<rparr>, sent)))"

definition GetSubscriberCount :: "string \<Rightarrow> 'p PubSub \<Rightarrow> int" where
  "GetSubscriberCount topic ps = int (length (topic_subs (subscribers ps) topic))"

definition GetTopics :: "'p PubSub \<Rightarrow> string list" where
  "GetTopics ps = map fst (subscribers ps)"

section \<open>The connection hub (package websocket)\<close>

text \<open>
  \<open>Message\<close> and \<open>Client\<close> of client.go. Only the fields the hub reads or writes are
  kept: the connection, the logger and the back pointer to the hub are left out.
\<close>

record Message =
  Type :: string
  Room :: string
  msg_Payload :: string

record Client =
  client_ID :: string
  UserID :: string
  send :: "string chan"
  client_rooms :: "(string, bool) gomap"

text \<open>
  \<open>NewClient\<close>: the outbound queue holds 256 entries; \<open>uuid\<close> is the value of
  \<open>uuid.New().String()\<close>.
\<close>

definition NewClient :: "string \<Rightarrow> string \<Rightarrow> Client" where
  "NewClient uuid userID =
     \<lparr>client_ID = uuid, UserID = userID, send = make_chan 256, client_rooms = []\<rparr>"

text \<open>
  The \<open>Hub\<close> struct with the part of the Go heap its functions reach through
  pointers: \<open>client_heap\<close> maps the address of a \<open>Client\<close> to the object,
  \<open>message_heap\<close> the address of a \<open>Message\<close>. The five channels of the struct carry
  the commands of \<open>Run\<close> and appear as the type \<open>command\<close> below.
\<close>

record Hub =
  clients :: "(nat, bool) gomap"
  rooms :: "(string, (nat, bool) gomap) gomap"
  client_heap :: "nat \<Rightarrow> Client"
  message_heap :: "nat \<Rightarrow> Message"

text \<open>\<open>NewHub\<close>, in the heap given by \<open>ch\<close> and \<open>mh\<close>.\<close>

definition NewHub :: "(nat \<Rightarrow> Client) \<Rightarrow> (nat \<Rightarrow> Message) \<Rightarrow> Hub" where
  "NewHub ch mh = \<lparr>clients = [], rooms = [], client_heap = ch, message_heap = mh\<rparr>"

text \<open>The member map \<open>h.rooms[room]\<close>; a missing room reads as the nil map.\<close>

definition room_members :: "(string, (nat, bool) gomap) gomap \<Rightarrow> string \<Rightarrow> (nat, bool) gomap" where
  "room_members reg room = (case map_of reg room of None \<Rightarrow> [] | Some cl \<Rightarrow> cl)"

definition registerClient :: "nat \<Rightarrow> Hub \<Rightarrow> Hub" where
  "registerClient client h = h\<lparr>clients := AList.update client True (clients h)\<rparr>"

text \<open>
  The loop of \<open>unregisterClient\<close> over \<open>h.rooms\<close>: each room is visited once, with
  the member map it has at that moment.
\<close>

fun unregister_rooms ::
  "nat \<Rightarrow> string list \<Rightarrow> (string, (nat, bool) gomap) gomap \<Rightarrow> (string, (nat, bool) gomap) gomap" where
  "unregister_rooms client [] reg = reg"
| "unregister_rooms client (room # rs) reg =
     unregister_rooms client rs
       (case map_of reg room of
          None \<Rightarrow> reg
        | Some cl \<Rightarrow>
            (if has_key cl client then
               (let cl' = AList.delete client cl
                in if length cl' = 0 then AList.delete room reg
                   else AList.update room cl' reg)
             else reg))"

definition unregisterClient :: "nat \<Rightarrow> Hub \<Rightarrow> panic + Hub" where
  "unregisterClient client h =
     (if has_key (clients h) client then
        (case close_chan (send (client_heap h client)) of
           Inl e \<Rightarrow> Inl e
         | Inr ch \<Rightarrow>
             Inr (h\<lparr>clients := AList.delete client (clients h),
                    client_heap := (client_heap h)(client := (client_heap h client)\<lparr>send := ch\<rparr>),
                    rooms := unregister_rooms client (map fst (rooms h)) (rooms h)\<rparr>))
      else Inr h)"

definition addClientToRoom :: "nat \<Rightarrow> string \<Rightarrow> Hub \<Rightarrow> Hub" where
  "addClientToRoom client room h =
     (let cl = room_members (rooms h) room;
          obj = client_heap h client
      in h\<lparr>rooms := AList.update room (AList.update client True cl) (rooms h),
            client_heap := (client_heap h)
              (client := obj\<lparr>client_rooms := AList.update room True (client_rooms obj)\<rparr>)\<rparr>)"

definition removeClientFromRoom :: "nat \<Rightarrow> string \<Rightarrow> Hub \<Rightarrow> Hub" where
  "removeClientFromRoom client room h =
     (case map_of (rooms h) room of
        None \<Rightarrow> h
      | Some cl \<Rightarrow>
          (let cl' = AList.delete client cl;
               obj = client_heap h client;
               h1 = h\<lparr>rooms := AList.update room cl' (rooms h),
                       client_heap := (client_heap h)
                         (client := obj\<lparr>client_rooms := AList.delete room (client_rooms obj)\<rparr>)\<rparr>
           in if length cl' = 0 then h1\<lparr>rooms := AList.delete room (rooms h1)\<rparr> else h1))"

text \<open>
  The delivery loops of \<open>broadcastMessage\<close>: a non-blocking send of \<open>data\<close> to the
  outbound queue of each client, in turn.
\<close>

fun send_each :: "string \<Rightarrow> nat list \<Rightarrow> (nat \<Rightarrow> Client) \<Rightarrow> panic + (nat \<Rightarrow> Client)" where
  "send_each data [] ch = Inr ch"
| "send_each data (client # cs) ch =
     (case try_send data (send (ch client)) of
        Inl e \<Rightarrow> Inl e
      | Inr (ok, q) \<Rightarrow> send_each data cs (ch(client := (ch client)\<lparr>send := q\<rparr>)))"

text \<open>
  \<open>broadcastMessage(message)\<close>. \<open>encode\<close> stands for \<open>Message.Encode\<close>, which is
  \<open>json.Marshal\<close> of the library; \<open>None\<close> is its error.
\<close>

definition broadcastMessage :: "(Message \<Rightarrow> string option) \<Rightarrow> nat \<Rightarrow> Hub \<Rightarrow> panic + Hub" where
  "broadcastMessage encode message h =
     (case encode (message_heap h message) of
        None \<Rightarrow> Inr h
      | Some data \<Rightarrow>
          (if Room (message_heap h message) \<noteq> [] then
             (case map_of (rooms h) (Room (message_heap h message)) of
                Some cl \<Rightarrow>
                  (case send_each data (map fst cl) (client_heap h) of
                     Inl e \<Rightarrow> Inl e
                   | Inr ch \<Rightarrow> Inr (h\<lparr>client_heap := ch\<rparr>))
              | None \<Rightarrow> Inr h)
           else
             (case send_each data (map fst (clients h)) (client_heap h) of
                Inl e \<Rightarrow> Inl e
              | Inr ch \<Rightarrow> Inr (h\<lparr>client_heap := ch\<rparr>))))"

text \<open>
  \<open>BroadcastToAll\<close> and \<open>BroadcastToRoom\<close> hand the message to the control loop over
  \<open>h.broadcast\<close>, and the loop calls \<open>broadcastMessage\<close> on it; the hand-over is
  collapsed here, so the functions stand for the call followed by the loop's handling
  of the message. \<open>BroadcastToRoom\<close> first assigns \<open>message.Room = room\<close>.
\<close>

definition BroadcastToAll :: "(Message \<Rightarrow> string option) \<Rightarrow> nat \<Rightarrow> Hub \<Rightarrow> panic + Hub" where
  "BroadcastToAll encode message h = broadcastMessage encode message h"

definition BroadcastToRoom ::
  "(Message \<Rightarrow> string option) \<Rightarrow> string \<Rightarrow> nat \<Rightarrow> Hub \<Rightarrow> panic + Hub" where
  "BroadcastToRoom encode room message h =
     broadcastMessage encode message
       (h\<lparr>message_heap := (message_heap h)(message := (message_heap h message)\<lparr>Room := room\<rparr>)\<rparr>)"

definition GetConnectedClients :: "Hub \<Rightarrow> int" where
  "GetConnectedClients h = int (length (clients h))"

definition GetRoomClients :: "string \<Rightarrow> Hub \<Rightarrow> int" where
  "GetRoomClients room h =
     (case map_of (rooms h) room of Some cl \<Rightarrow> int (length cl) | None \<Rightarrow> 0)"

text \<open>One iteration of the loop of \<open>Run\<close>, for the command it received.\<close>

datatype command =
  Register nat
| Unregister nat
| JoinRoom nat string
| LeaveRoom nat string
| Broadcast nat

fun Run_step :: "(Message \<Rightarrow> string option) \<Rightarrow> command \<Rightarrow> Hub \<Rightarrow> panic + Hub" where
  "Run_step encode (Register client) h = Inr (registerClient client h)"
| "Run_step encode (Unregister client) h = unregisterClient client h"
| "Run_step encode (JoinRoom client room) h = Inr (addClientToRoom client room h)"
| "Run_step encode (LeaveRoom client room) h = Inr (removeClientFromRoom client room h)"
| "Run_step encode (Broadcast message) h = broadcastMessage encode message h"

section \<open>Fanout (internal/channel/pubsub.go)\<close>

text \<open>
  What the goroutine of a \<open>Fanout\<close> or a \<open>Pipeline\<close> ends as: it returned, it is
  parked in a channel operation that cannot proceed, or it panicked.
\<close>

datatype 's outcome = Returned 's | Parked 's | Panicked panic

record 'p Fanout =
  input :: "'p Event chan"
  outputs :: "'p Event chan list"
  fanout_done :: bool

text \<open>The loop \<open>for _, out := range f.outputs { close(out) }\<close>.\<close>

fun close_all :: "'a chan list \<Rightarrow> panic + 'a chan list" where
  "close_all [] = Inr []"
| "close_all (out # outs) =
     (case close_chan out of
        Inl e \<Rightarrow> Inl e
      | Inr out' \<Rightarrow> (case close_all outs of Inl e \<Rightarrow> Inl e | Inr outs' \<Rightarrow> Inr (out' # outs')))"

text \<open>The loop that offers an event to every output with a non-blocking send.\<close>

fun offer_all :: "'a \<Rightarrow> 'a chan list \<Rightarrow> panic + 'a chan list" where
  "offer_all event [] = Inr []"
| "offer_all event (out # outs) =
     (case try_send event out of
        Inl e \<Rightarrow> Inl e
      | Inr (ok, out') \<Rightarrow>
          (case offer_all event outs of Inl e \<Rightarrow> Inl e | Inr outs' \<Rightarrow> Inr (out' # outs')))"

text \<open>
  \<open>Fanout.run\<close>. The receive from \<open>f.input\<close> can proceed when the buffer holds an
  event or the channel is closed; a closed channel hands out its buffered events
  before it reports \<open>!ok\<close>. When the context is cancelled and the receive can proceed
  as well, Go picks one of the two cases at random: \<open>pick n\<close> says whether the \<open>n\<close>th
  iteration picks \<open><-f.ctx.Done()\<close>.
\<close>

function Fanout_run :: "(nat \<Rightarrow> bool) \<Rightarrow> nat \<Rightarrow> 'p Fanout \<Rightarrow> 'p Fanout outcome" where
  "Fanout_run pick n f =
     (if fanout_done f \<and> (pick n \<or> \<not> (buf (input f) \<noteq> [] \<or> closed (input f))) then
        (case close_all (outputs f) of
           Inl e \<Rightarrow> Panicked e
         | Inr outs \<Rightarrow> Returned (f\<lparr>outputs := outs\<rparr>))
      else if buf (input f) \<noteq> [] then
        (case offer_all (hd (buf (input f))) (outputs f) of
           Inl e \<Rightarrow> Panicked e
         | Inr outs \<Rightarrow>
             Fanout_run pick (Suc n)
               (f\<lparr>input := (input f)\<lparr>buf := tl (buf (input f))\<rparr>, outputs := outs\<rparr>))
      else if closed (input f) then Returned f
      else Parked f)"
  by pat_completeness auto
termination
  by (relation "measure (\<lambda>(pick, n, f). length (buf (input f)))") auto

declare Fanout_run.simps [simp del]

section \<open>Pipeline (internal/channel/pubsub.go)\<close>

text \<open>A stage returns its error as \<open>Inl\<close>; the error value is its message.\<close>

record 'p Pipeline =
  stages :: "('p Event \<Rightarrow> string + 'p Event) list"
  pipe_input :: "'p Event chan"
  pipe_output :: "'p Event chan"
  pipe_errors :: "string chan"
  pipeline_done :: bool

text \<open>The blocking send \<open>c <- v\<close>: \<open>None\<close> when it cannot proceed and parks the goroutine.\<close>

definition blocking_send :: "'a \<Rightarrow> 'a chan \<Rightarrow> panic + 'a chan option" where
  "blocking_send v c =
     (if closed c then Inl SendOnClosedChannel
      else if length (buf c) < cap c then Inr (Some (c\<lparr>buf := buf c @ [v]\<rparr>))
      else Inr None)"

text \<open>The loop over \<open>p.stages\<close>: the first error ends it.\<close>

fun run_stages :: "('p Event \<Rightarrow> string + 'p Event) list \<Rightarrow> 'p Event \<Rightarrow> string + 'p Event" where
  "run_stages [] event = Inr event"
| "run_stages (stage # rest) event =
     (case stage event of Inl err \<Rightarrow> Inl err | Inr event' \<Rightarrow> run_stages rest event')"

text \<open>\<open>close(p.output); close(p.errors); return\<close>.\<close>

definition close_outputs :: "'p Pipeline \<Rightarrow> 'p Pipeline outcome" where
  "close_outputs p =
     (case close_chan (pipe_output p) of
        Inl e \<Rightarrow> Panicked e
      | Inr out \<Rightarrow>
          (case close_chan (pipe_errors p) of
             Inl e \<Rightarrow> Panicked e
           | Inr errs \<Rightarrow> Returned (p\<lparr>pipe_output := out, pipe_errors := errs\<rparr>)))"

text \<open>
  The goroutine of \<open>Pipeline.Start\<close>; \<open>pick n\<close> is as for \<open>Fanout_run\<close>. The sends to
  \<open>p.errors\<close> and \<open>p.output\<close> block.
\<close>

function Pipeline_run :: "(nat \<Rightarrow> bool) \<Rightarrow> nat \<Rightarrow> 'p Pipeline \<Rightarrow> 'p Pipeline outcome" where
  "Pipeline_run pick n p =
     (if pipeline_done p \<and> (pick n \<or> \<not> (buf (pipe_input p) \<noteq> [] \<or> closed (pipe_input p))) then
        close_outputs p
      else if buf (pipe_input p) \<noteq> [] then
        (case run_stages (stages p) (hd (buf (pipe_input p))) of
           Inl err \<Rightarrow>
             (case blocking_send err (pipe_errors p) of
                Inl e \<Rightarrow> Panicked e
              | Inr None \<Rightarrow> Parked (p\<lparr>pipe_input := (pipe_input p)\<lparr>buf := tl (buf (pipe_input p))\<rparr>\<rparr>)
              | Inr (Some errs) \<Rightarrow>
                  Pipeline_run pick (Suc n)
                    (p\<lparr>pipe_input := (pipe_input p)\<lparr>buf := tl (buf (pipe_input p))\<rparr>,
                       pipe_errors := errs\<rparr>))
         | Inr event \<Rightarrow>
             (case blocking_send event (pipe_output p) of
                Inl e \<Rightarrow> Panicked e
              | Inr None \<Rightarrow> Parked (p\<lparr>pipe_input := (pipe_input p)\<lparr>buf := tl (buf (pipe_input p))\<rparr>\<rparr>)
              | Inr (Some out) \<Rightarrow>
                  Pipeline_run pick (Suc n)
                    (p\<lparr>pipe_input := (pipe_input p)\<lparr>buf := tl (buf (pipe_input p))\<rparr>,
                       pipe_output := out\<rparr>)))
      else if closed (pipe_input p) then close_outputs p
      else Parked p)"
  by pat_completeness auto
termination
  by (relation "measure (\<lambda>(pick, n, p). length (buf (pipe_input p)))") auto

declare Pipeline_run.simps [simp del]

section \<open>Observations and invariants\<close>

text \<open>Whether a client is in the hub's member map of a room.\<close>

definition in_room :: "Hub \<Rightarrow> string \<Rightarrow> nat \<Rightarrow> bool" where
  "in_room h room client = has_key (room_members (rooms h) room) client"

text \<open>
  The hub and the clients agree on membership: a registered client is in the hub's
  member map of a room exactly when the room is in the client's own \<open>rooms\<close> map.
\<close>

definition hub_consistent :: "Hub \<Rightarrow> bool" where
  "hub_consistent h =
     (\<forall>client room. has_key (clients h) client \<longrightarrow>
        in_room h room client = has_key (client_rooms (client_heap h client)) room)"

text \<open>
  The state of the bus is well formed: the entries of a topic have distinct ids (they
  are the keys of a Go map); an entry of topic \<open>t\<close> under id \<open>i\<close> holds the address of
  an allocated subscriber whose \<open>ID\<close> is \<open>i\<close>, whose \<open>Topics\<close> list \<open>t\<close> and whose queue
  is open; and every allocated address is below \<open>nxt\<close>.
\<close>

definition bus_inv :: "'p PubSub \<Rightarrow> bool" where
  "bus_inv ps =
     ((\<forall>t. distinct (map fst (topic_subs (subscribers ps) t))) \<and>
      (\<forall>t i a. (i, a) \<in> set (topic_subs (subscribers ps) t) \<longrightarrow>
         (\<exists>obj. heap ps a = Some obj \<and> ID obj = i \<and> t \<in> set (Topics obj) \<and>
                \<not> closed (Channel obj))) \<and>
      (\<forall>a obj. heap ps a = Some obj \<longrightarrow> a < nxt ps))"

text \<open>Calls of the bus, and the run of a list of calls; a panic ends the run.\<close>

datatype 'p bus_call =
  CallSubscribe bool string "string list"
| CallUnsubscribe nat
| CallPublish "nat \<Rightarrow> bool" nat string 'p

fun bus_step :: "'p bus_call \<Rightarrow> 'p PubSub \<Rightarrow> panic + 'p PubSub" where
  "bus_step (CallSubscribe parent_done sid topics) ps = Inr (snd (Subscribe parent_done sid topics ps))"
| "bus_step (CallUnsubscribe sub) ps = Unsubscribe sub ps"
| "bus_step (CallPublish pick now topic payload) ps =
     (case Publish pick now topic payload ps of Inl e \<Rightarrow> Inl e | Inr (ps', sent) \<Rightarrow> Inr ps')"

fun bus_run :: "'p bus_call list \<Rightarrow> 'p PubSub \<Rightarrow> panic + 'p PubSub" where
  "bus_run [] ps = Inr ps"
| "bus_run (c # cs) ps = (case bus_step c ps of Inl e \<Rightarrow> Inl e | Inr ps' \<Rightarrow> bus_run cs ps')"

section \<open>Example states\<close>

text \<open>An encoder that succeeds on every message, and a heap of new clients and messages.\<close>

definition encode_ok :: "Message \<Rightarrow> string option" where
  "encode_ok m = Some (Type m @ '' '' @ Room m @ '' '' @ msg_Payload m)"

definition new_clients :: "nat \<Rightarrow> Client" where
  "new_clients a = NewClient ''id'' ''user''"

definition new_messages :: "nat \<Rightarrow> Message" where
  "new_messages a = \<lparr>Type = ''note'', Room = [], msg_Payload = ''hi''\<rparr>"

text \<open>Sessions 1 and 2 are registered and in room "chat"; session 3 is registered only.\<close>

definition chat_hub :: Hub where
  "chat_hub =
     addClientToRoom 2 ''chat'' (addClientToRoom 1 ''chat''
       (registerClient 3 (registerClient 2 (registerClient 1 (NewHub new_clients new_messages)))))"

text \<open>As \<open>chat_hub\<close>, with the outbound queue of session 1 filled to its bound of 256.\<close>

definition busy_hub :: Hub where
  "busy_hub =
     chat_hub\<lparr>client_heap := (client_heap chat_hub)
       (1 := (client_heap chat_hub 1)\<lparr>send := (send (client_heap chat_hub 1))
                \<lparr>buf := replicate 256 ''queued''\<rparr>\<rparr>)\<rparr>"

text \<open>
  A bus with queues of one event, and subscriber "s1" (at address 0) on topics "a"
  and "b".
\<close>

definition bus_one :: "string PubSub" where
  "bus_one = snd (Subscribe False ''s1'' [''a'', ''b''] (NewPubSub 1))"

text \<open>As \<open>bus_one\<close>, after an event was published to topic "a": the queue is full.\<close>

definition bus_full :: "string PubSub" where
  "bus_full =
     (case Publish (\<lambda>sub. True) 0 ''a'' ''x'' bus_one of
        Inl e \<Rightarrow> bus_one
      | Inr (ps, sent) \<Rightarrow> ps)"

text \<open>
  A bus with queues of one event, and subscriber "s1" (at address 0) on topic "a",
  subscribed on a context that is already cancelled: its own context is cancelled from
  the start, and its queue is empty.
\<close>

definition bus_cancelled :: "string PubSub" where
  "bus_cancelled = snd (Subscribe True ''s1'' [''a''] (NewPubSub 1))"

section \<open>Go maps as association lists\<close>

lemma has_key_delete [simp]: "has_key (AList.delete k m) k' = (k' \<noteq> k \<and> has_key m k')"
  by (simp add: has_key_def delete_conv')

lemma has_key_update [simp]: "has_key (AList.update k v m) k' = (k' = k \<or> has_key m k')"
  by (simp add: has_key_def update_conv')

lemma has_key_Nil [simp]: "\<not> has_key [] k"
  by (simp add: has_key_def)

lemma has_key_dom: "has_key m k = (k \<in> fst ` set m)"
  by (simp add: has_key_def map_of_eq_None_iff)

lemma delete_absent: "\<not> has_key m k \<Longrightarrow> AList.delete k m = m"
  by (simp add: has_key_dom)

lemma update_absent: "\<not> has_key m k \<Longrightarrow> AList.update k v m = m @ [(k, v)]"
  by (induction m) (auto simp add: has_key_def)

lemma delete_append: "AList.delete k (m @ n) = AList.delete k m @ AList.delete k n"
  by (simp add: AList.delete_eq)

section \<open>The hub's room registry\<close>

lemma map_of_unregister_rooms:
  "map_of (unregister_rooms c rs reg) r =
     (if r \<in> set rs then
        (case map_of reg r of
           None \<Rightarrow> None
         | Some cl \<Rightarrow> if AList.delete c cl = [] \<and> has_key cl c then None else Some (AList.delete c cl))
      else map_of reg r)"
proof (induction rs arbitrary: reg)
  case Nil
  then show ?case by simp
next
  case (Cons room rs)
  show ?case
    by (auto simp add: Cons.IH update_conv' delete_conv' delete_absent delete_idem
        split: option.splits)
qed

lemma room_members_unregister:
  "room_members (unregister_rooms c (map fst reg) reg) r = AList.delete c (room_members reg r)"
proof (cases "map_of reg r")
  case None
  then have "r \<notin> set (map fst reg)" by (simp add: map_of_eq_None_iff)
  with None show ?thesis by (simp add: room_members_def map_of_unregister_rooms)
next
  case (Some cl)
  then have "r \<in> set (map fst reg)" by (metis map_of_eq_None_iff option.distinct(1) set_map)
  with Some show ?thesis
    by (auto simp add: room_members_def map_of_unregister_rooms delete_absent)
qed

lemma room_members_add:
  "room_members (rooms (addClientToRoom c room h)) r =
     (if r = room then AList.update c True (room_members (rooms h) room)
      else room_members (rooms h) r)"
  by (simp add: addClientToRoom_def Let_def room_members_def update_conv')

lemma room_members_remove:
  "room_members (rooms (removeClientFromRoom c room h)) r =
     (if r = room then AList.delete c (room_members (rooms h) room)
      else room_members (rooms h) r)"
  by (auto simp add: removeClientFromRoom_def Let_def room_members_def update_conv' delete_conv'
      split: option.splits)

lemma client_heap_add:
  "client_heap (addClientToRoom c room h) c' =
     (if c' = c then (client_heap h c)\<lparr>client_rooms := AList.update room True (client_rooms (client_heap h c))\<rparr>
      else client_heap h c')"
  by (simp add: addClientToRoom_def Let_def)

lemma client_heap_remove:
  "client_heap (removeClientFromRoom c room h) c' =
     (if c' = c \<and> map_of (rooms h) room \<noteq> None
      then (client_heap h c)\<lparr>client_rooms := AList.delete room (client_rooms (client_heap h c))\<rparr>
      else client_heap h c')"
  by (auto simp add: removeClientFromRoom_def Let_def split: option.splits)

lemma clients_add [simp]: "clients (addClientToRoom c room h) = clients h"
  by (simp add: addClientToRoom_def Let_def)

lemma clients_remove [simp]: "clients (removeClientFromRoom c room h) = clients h"
  by (simp add: removeClientFromRoom_def Let_def split: option.splits)

section \<open>Delivery loops of the hub\<close>

lemma send_each_open:
  assumes "distinct cs" and "\<forall>c \<in> set cs. \<not> closed (send (ch c))"
  shows "send_each data cs ch =
     Inr (\<lambda>c. if c \<in> set cs \<and> length (buf (send (ch c))) < cap (send (ch c))
               then (ch c)\<lparr>send := (send (ch c))\<lparr>buf := buf (send (ch c)) @ [data]\<rparr>\<rparr>
               else ch c)"
  using assms
proof (induction cs arbitrary: ch)
  case Nil
  then show ?case by simp
next
  case (Cons a cs)
  have "\<forall>c \<in> set cs. \<not> closed (send ((ch(a := x)) c))" for x
    using Cons.prems by auto
  then show ?case using Cons.prems
    by (auto simp add: Cons.IH try_send_def fun_eq_iff)
qed

lemma send_each_rooms:
  "send_each data cs ch = Inr ch' \<Longrightarrow> client_rooms (ch' c) = client_rooms (ch c)"
proof (induction cs arbitrary: ch)
  case Nil
  then show ?case by simp
next
  case (Cons a cs)
  then show ?case
    by (fastforce split: sum.splits prod.splits)
qed

lemma broadcastMessage_registry:
  assumes "broadcastMessage encode message h = Inr h'"
  shows "clients h' = clients h \<and> rooms h' = rooms h"
proof (cases "encode (message_heap h message)")
  case None
  then show ?thesis using assms by (simp add: broadcastMessage_def)
next
  case (Some data)
  show ?thesis
  proof (cases "Room (message_heap h message) \<noteq> []")
    case True
    show ?thesis
    proof (cases "map_of (rooms h) (Room (message_heap h message))")
      case None
      then show ?thesis using assms Some True by (simp add: broadcastMessage_def)
    next
      case (Some cl)
      then show ?thesis using assms \<open>encode (message_heap h message) = Some data\<close> True
        by (cases "send_each data (map fst cl) (client_heap h)")
          (auto simp add: broadcastMessage_def)
    qed
  next
    case False
    then show ?thesis using assms Some
      by (cases "send_each data (map fst (clients h)) (client_heap h)")
        (auto simp add: broadcastMessage_def)
  qed
qed

text \<open>
  The keys of the hub's maps stay distinct through every iteration of the control loop,
  as the keys of a Go map are.
\<close>

lemma hub_keys_distinct_step:
  assumes "distinct (map fst (clients h))"
    and "\<forall>r. distinct (map fst (room_members (rooms h) r))"
    and "Run_step encode cmd h = Inr h'"
  shows "distinct (map fst (clients h')) \<and> (\<forall>r. distinct (map fst (room_members (rooms h') r)))"
proof (cases cmd)
  case (Register c)
  then show ?thesis using assms by (auto simp add: registerClient_def distinct_update)
next
  case (Unregister c)
  then show ?thesis using assms
    by (auto simp add: unregisterClient_def close_chan_def room_members_unregister distinct_delete
        split: if_splits)
next
  case (JoinRoom c r)
  then show ?thesis using assms by (auto simp add: room_members_add distinct_update)
next
  case (LeaveRoom c r)
  then show ?thesis using assms by (auto simp add: room_members_remove distinct_delete)
next
  case (Broadcast m)
  then show ?thesis using assms broadcastMessage_registry [of encode m h h'] by simp
qed

lemma hub_keys_distinct_new:
  "distinct (map fst (clients (NewHub ch mh))) \<and>
   (\<forall>r. distinct (map fst (room_members (rooms (NewHub ch mh)) r)))"
  by (simp add: NewHub_def room_members_def)

section \<open>Example states, evaluated\<close>

lemma chat_hub_rooms: "rooms chat_hub = [(''chat'', [(1, True), (2, True)])]"
  by (simp add: chat_hub_def addClientToRoom_def registerClient_def NewHub_def room_members_def Let_def)

lemma chat_hub_clients: "clients chat_hub = [(1, True), (2, True), (3, True)]"
  by (simp add: chat_hub_def registerClient_def NewHub_def)

lemma chat_hub_heap:
  "client_heap chat_hub c =
     (if c = 1 \<or> c = 2 then (NewClient ''id'' ''user'')\<lparr>client_rooms := [(''chat'', True)]\<rparr>
      else NewClient ''id'' ''user'')"
  by (simp add: chat_hub_def addClientToRoom_def registerClient_def NewHub_def Let_def
      new_clients_def NewClient_def)

lemma chat_hub_messages: "message_heap chat_hub = new_messages"
  by (simp add: chat_hub_def addClientToRoom_def registerClient_def NewHub_def Let_def)

lemma chat_hub_consistent: "hub_consistent chat_hub"
  by (auto simp add: hub_consistent_def in_room_def room_members_def chat_hub_rooms
      chat_hub_clients chat_hub_heap has_key_def NewClient_def split: if_splits)

section \<open>Membership consistency of the hub\<close>

lemma consistent_add:
  assumes "hub_consistent h"
  shows "hub_consistent (addClientToRoom client room h)"
  using assms
  by (auto simp add: hub_consistent_def in_room_def room_members_add client_heap_add)

lemma consistent_remove:
  assumes "hub_consistent h"
  shows "hub_consistent (removeClientFromRoom client room h)"
proof (cases "map_of (rooms h) room")
  case None
  then show ?thesis using assms by (simp add: removeClientFromRoom_def)
next
  case (Some cl)
  then show ?thesis using assms
    by (auto simp add: hub_consistent_def in_room_def room_members_remove client_heap_remove)
qed

lemma consistent_unregister:
  assumes "hub_consistent h" and "unregisterClient client h = Inr h'"
  shows "hub_consistent h'"
  using assms
  by (auto simp add: unregisterClient_def hub_consistent_def in_room_def room_members_unregister
      close_chan_def split: if_splits)

lemma consistent_broadcast:
  assumes "hub_consistent h" and "broadcastMessage encode message h = Inr h'"
  shows "hub_consistent h'"
proof -
  have "clients h' = clients h \<and> rooms h' = rooms h
      \<and> (\<forall>c. client_rooms (client_heap h' c) = client_rooms (client_heap h c))"
    using assms(2)
    by (auto simp add: broadcastMessage_def send_each_rooms split: option.splits if_splits sum.splits)
  then show ?thesis using assms(1)
    by (simp add: hub_consistent_def in_room_def)
qed

lemma consistent_register:
  assumes "hub_consistent h"
    and "\<forall>r. in_room h r client = has_key (client_rooms (client_heap h client)) r"
  shows "hub_consistent (registerClient client h)"
  using assms
  by (auto simp add: hub_consistent_def in_room_def registerClient_def)

lemma consistent_new: "hub_consistent (NewHub ch mh)"
  by (simp add: hub_consistent_def NewHub_def)

text \<open>
  Claim C3. For every session registered with the hub and every room, the session is in
  the hub's member map of the room if and only if the room is in the session's own
  \<open>rooms\<close> map. The property holds of a new hub and is preserved by every iteration of
  the control loop: joining a room, leaving a room, unregistering and broadcasting; and
  by registering a session whose own \<open>rooms\<close> map agrees with the hub, as a new
  session's does.
\<close>

theorem hub_membership_consistent:
  "hub_consistent (NewHub ch mh) \<and>
   (hub_consistent h \<longrightarrow>
      hub_consistent (addClientToRoom client room h) \<and>
      hub_consistent (removeClientFromRoom client room h) \<and>
      (\<forall>h'. unregisterClient client h = Inr h' \<longrightarrow> hub_consistent h') \<and>
      (\<forall>h'. broadcastMessage encode message h = Inr h' \<longrightarrow> hub_consistent h') \<and>
      ((\<forall>r. in_room h r client = has_key (client_rooms (client_heap h client)) r) \<longrightarrow>
         hub_consistent (registerClient client h)))"
  using consistent_new consistent_add consistent_remove consistent_unregister
    consistent_broadcast consistent_register
  by blast

theorem hub_membership_consistent_witness:
  "hub_consistent chat_hub \<and>
   hub_consistent (addClientToRoom 3 ''lobby'' chat_hub) \<and>
   hub_consistent (removeClientFromRoom 3 ''lobby'' chat_hub) \<and>
   (\<exists>h'. unregisterClient 3 chat_hub = Inr h' \<and> hub_consistent h')"
proof -
  have "\<exists>h'. unregisterClient 3 chat_hub = Inr h'"
    by (simp add: unregisterClient_def chat_hub_clients chat_hub_heap has_key_def
        close_chan_def NewClient_def make_chan_def)
  then show ?thesis
    using hub_membership_consistent [of new_clients new_messages chat_hub 3 "''lobby''"]
      chat_hub_consistent
    by blast
qed

section \<open>Unregistering a session\<close>

text \<open>
  Claim C5. Unregistering a registered session whose outbound queue is open removes it
  from the live set and from the member map of every room, closes its outbound queue
  (leaving the queued entries and every other session as they are), and deletes every
  room that the removal left empty. A second unregistration of the session returns the
  state unchanged: it closes nothing and changes no registry.
\<close>

theorem unregister_session:
  assumes "has_key (clients h) client" and "\<not> closed (send (client_heap h client))"
  shows "\<exists>h'. unregisterClient client h = Inr h' \<and>
     \<not> has_key (clients h') client \<and>
     (\<forall>c. c \<noteq> client \<longrightarrow> has_key (clients h') c = has_key (clients h) c) \<and>
     (\<forall>room. room_members (rooms h') room = AList.delete client (room_members (rooms h) room)) \<and>
     (\<forall>room. \<not> in_room h' room client) \<and>
     (\<forall>room. in_room h room client \<and> AList.delete client (room_members (rooms h) room) = []
        \<longrightarrow> map_of (rooms h') room = None) \<and>
     closed (send (client_heap h' client)) \<and>
     buf (send (client_heap h' client)) = buf (send (client_heap h client)) \<and>
     (\<forall>c. c \<noteq> client \<longrightarrow> client_heap h' c = client_heap h c) \<and>
     unregisterClient client h' = Inr h'"
proof -
  define h' where "h' = h\<lparr>clients := AList.delete client (clients h),
      client_heap := (client_heap h)(client := (client_heap h client)\<lparr>send := (send (client_heap h client))\<lparr>closed := True\<rparr>\<rparr>),
      rooms := unregister_rooms client (map fst (rooms h)) (rooms h)\<rparr>"
  have r: "unregisterClient client h = Inr h'"
    using assms by (simp add: unregisterClient_def close_chan_def h'_def)
  have m: "room_members (rooms h') room = AList.delete client (room_members (rooms h) room)" for room
    by (simp add: h'_def room_members_unregister)
  have e: "map_of (rooms h') room = None"
    if "in_room h room client" "AList.delete client (room_members (rooms h) room) = []" for room
  proof -
    have "map_of (rooms h) room \<noteq> None"
    proof
      assume "map_of (rooms h) room = None"
      then show False using that(1) by (simp add: in_room_def room_members_def)
    qed
    then obtain cl where cl: "map_of (rooms h) room = Some cl"
      by blast
    then have "room \<in> set (map fst (rooms h))"
      by (metis map_of_eq_None_iff option.distinct(1) set_map)
    then show ?thesis using cl that
      by (simp add: h'_def map_of_unregister_rooms in_room_def room_members_def)
  qed
  have again: "unregisterClient client h' = Inr h'"
    by (simp add: unregisterClient_def h'_def)
  show ?thesis
    using r m e again
    by (auto simp add: in_room_def) (simp_all add: h'_def)
qed

theorem unregister_session_witness:
  "has_key (clients (addClientToRoom 3 ''solo'' chat_hub)) 3 \<and>
   (\<exists>h'. unregisterClient 3 (addClientToRoom 3 ''solo'' chat_hub) = Inr h' \<and>
      \<not> has_key (clients h') 3 \<and> closed (send (client_heap h' 3)) \<and>
      map_of (rooms h') ''solo'' = None \<and> unregisterClient 3 h' = Inr h')"
proof -
  have a: "has_key (clients (addClientToRoom 3 ''solo'' chat_hub)) 3"
    by (simp add: chat_hub_clients has_key_def)
  have b: "\<not> closed (send (client_heap (addClientToRoom 3 ''solo'' chat_hub) 3))"
    by (simp add: client_heap_add chat_hub_heap NewClient_def make_chan_def)
  have c: "in_room (addClientToRoom 3 ''solo'' chat_hub) ''solo'' 3"
    by (simp add: in_room_def room_members_add)
  have d: "AList.delete 3 (room_members (rooms (addClientToRoom 3 ''solo'' chat_hub)) ''solo'') = []"
    by (simp add: room_members_add) (simp add: room_members_def chat_hub_rooms)
  show ?thesis
    using unregister_session [OF a b] a c d by blast
qed

section \<open>Joining and leaving a room\<close>

text \<open>
  Claim C7, amended. For a session that is not yet a member of the room, joining the room
  and then leaving it returns the room's size to its value before the join; and if the
  room had no member before the join, the room is absent from the room registry after
  the leave. (For a session that is already a member the join changes nothing and the
  leave removes the session, so the size ends one below its value before the join; the
  counterexample shows it.)
\<close>

theorem join_then_leave_room_size:
  assumes "\<not> in_room h room client"
  shows "GetRoomClients room (removeClientFromRoom client room (addClientToRoom client room h))
           = GetRoomClients room h \<and>
         (GetRoomClients room h = 0 \<longrightarrow>
            map_of (rooms (removeClientFromRoom client room (addClientToRoom client room h))) room
              = None)"
  using assms
  by (auto simp add: GetRoomClients_def removeClientFromRoom_def addClientToRoom_def Let_def
      in_room_def room_members_def
      update_conv' delete_conv' update_absent delete_append delete_absent split: option.splits)

theorem join_then_leave_room_size_witness:
  "\<not> in_room chat_hub ''chat'' 3 \<and>
   GetRoomClients ''chat'' (removeClientFromRoom 3 ''chat'' (addClientToRoom 3 ''chat'' chat_hub)) = 2 \<and>
   GetRoomClients ''chat'' chat_hub = 2"
proof -
  have a: "\<not> in_room chat_hub ''chat'' 3"
    by (simp add: in_room_def room_members_def chat_hub_rooms has_key_def)
  have b: "GetRoomClients ''chat'' chat_hub = 2"
    by (simp add: GetRoomClients_def chat_hub_rooms)
  show ?thesis
    using join_then_leave_room_size [OF a] a b by simp
qed

theorem join_then_leave_counterexample:
  "GetRoomClients ''chat'' chat_hub = 2 \<and>
   GetRoomClients ''chat'' (removeClientFromRoom 1 ''chat'' (addClientToRoom 1 ''chat'' chat_hub)) = 1"
  by (simp add: GetRoomClients_def removeClientFromRoom_def addClientToRoom_def Let_def
      room_members_def chat_hub_rooms)

section \<open>Broadcasting to a room\<close>

lemma in_room_keys: "in_room h room c = (c \<in> set (map fst (room_members (rooms h) room)))"
  by (simp add: in_room_def has_key_dom)

text \<open>
  Claim C6, amended. For a room name that is not the empty string and a message whose
  encoding succeeds, when the sessions in the room have open outbound queues (and the
  member map has one entry per session, as a Go map has):
  \<open>BroadcastToRoom\<close> returns without a panic, appends the encoded message to the queue of
  every session in the room whose queue has room, and leaves every other session as
  it is, those outside the room and those with a full queue; the live set and the room
  registry are unchanged. If the room is not in the room registry, no session is
  changed. (With the empty string as the room name the message has no room, and it
  goes to every registered session; the counterexample shows it.)
\<close>

theorem broadcast_to_room_members:
  assumes "room \<noteq> []"
    and "encode ((message_heap h message)\<lparr>Room := room\<rparr>) = Some data"
    and "distinct (map fst (room_members (rooms h) room))"
    and "\<forall>c. in_room h room c \<longrightarrow> \<not> closed (send (client_heap h c))"
  shows "\<exists>h'. BroadcastToRoom encode room message h = Inr h' \<and>
     (\<forall>c. client_heap h' c =
        (if in_room h room c \<and> length (buf (send (client_heap h c))) < cap (send (client_heap h c))
         then (client_heap h c)\<lparr>send := (send (client_heap h c))
                 \<lparr>buf := buf (send (client_heap h c)) @ [data]\<rparr>\<rparr>
         else client_heap h c)) \<and>
     (map_of (rooms h) room = None \<longrightarrow> client_heap h' = client_heap h) \<and>
     clients h' = clients h \<and> rooms h' = rooms h"
proof (cases "map_of (rooms h) room")
  case None
  then have "\<not> in_room h room c" for c
    by (simp add: in_room_def room_members_def)
  then show ?thesis using None assms(1,2)
    by (simp add: BroadcastToRoom_def broadcastMessage_def)
next
  case (Some cl)
  then have cl: "room_members (rooms h) room = cl"
    by (simp add: room_members_def)
  have "\<forall>c \<in> set (map fst cl). \<not> closed (send (client_heap h c))"
    using assms(4) cl by (simp add: in_room_keys)
  from send_each_open [OF assms(3) [unfolded cl] this, of data]
  show ?thesis using Some assms(1,2) cl
    by (simp add: BroadcastToRoom_def broadcastMessage_def in_room_keys)
qed

theorem broadcast_to_room_members_witness:
  "\<exists>h'. BroadcastToRoom encode_ok ''chat'' 0 chat_hub = Inr h' \<and>
     buf (send (client_heap h' 1)) = [''note chat hi''] \<and>
     buf (send (client_heap h' 2)) = [''note chat hi''] \<and>
     buf (send (client_heap h' 3)) = []"
proof -
  have a: "''chat'' \<noteq> []" by simp
  have b: "encode_ok ((message_heap chat_hub 0)\<lparr>Room := ''chat''\<rparr>) = Some ''note chat hi''"
    by (simp add: encode_ok_def chat_hub_messages new_messages_def)
  have c: "distinct (map fst (room_members (rooms chat_hub) ''chat''))"
    by (simp add: room_members_def chat_hub_rooms)
  have d: "\<forall>c. in_room chat_hub ''chat'' c \<longrightarrow> \<not> closed (send (client_heap chat_hub c))"
    by (simp add: chat_hub_heap NewClient_def make_chan_def)
  have e: "in_room chat_hub ''chat'' c = (c = 1 \<or> c = 2)" for c
    by (auto simp add: in_room_def room_members_def chat_hub_rooms has_key_def)
  obtain h' where h': "BroadcastToRoom encode_ok ''chat'' 0 chat_hub = Inr h'"
    and f: "\<forall>c. client_heap h' c =
        (if in_room chat_hub ''chat'' c \<and> length (buf (send (client_heap chat_hub c))) < cap (send (client_heap chat_hub c))
         then (client_heap chat_hub c)\<lparr>send := (send (client_heap chat_hub c))
                 \<lparr>buf := buf (send (client_heap chat_hub c)) @ [''note chat hi'']\<rparr>\<rparr>
         else client_heap chat_hub c)"
    using broadcast_to_room_members [where room = "''chat''" and encode = encode_ok
        and h = chat_hub and message = 0 and data = "''note chat hi''", OF a b c d]
    by blast
  show ?thesis
    using h' by (simp add: f e chat_hub_heap NewClient_def make_chan_def)
qed

theorem broadcast_to_room_counterexample:
  "map_of (rooms chat_hub) '''' = None \<and>
   (case BroadcastToRoom encode_ok '''' 0 chat_hub of
      Inl e \<Rightarrow> []
    | Inr h' \<Rightarrow> buf (send (client_heap h' 3))) = [''note  hi'']"
  by (simp add: BroadcastToRoom_def broadcastMessage_def chat_hub_rooms chat_hub_clients
      chat_hub_messages new_messages_def encode_ok_def try_send_def chat_hub_heap
      NewClient_def make_chan_def)

section \<open>Messages and events are not rewritten\<close>

lemma send_each_only_send:
  "send_each data cs ch = Inr ch' \<Longrightarrow>
     client_ID (ch' c) = client_ID (ch c) \<and> UserID (ch' c) = UserID (ch c)"
proof (induction cs arbitrary: ch)
  case Nil
  then show ?case by simp
next
  case (Cons a cs)
  then show ?case
    by (fastforce split: sum.splits prod.splits)
qed

lemma publish_loop_appends:
  assumes "publish_loop pick event subs hp sent = Inr (hp', sent')" and "hp sub = Some obj"
  shows "\<exists>obj' es. hp' sub = Some obj' \<and> buf (Channel obj') = buf (Channel obj) @ es \<and>
           set es \<subseteq> {event}"
  using assms
proof (induction subs arbitrary: hp sent obj)
  case Nil
  then show ?case by simp
next
  case (Cons a subs)
  show ?case
  proof (cases "hp a")
    case None
    then show ?thesis using Cons.prems by simp
  next
    case (Some oa)
    show ?thesis
    proof (cases "publish_loop pick event subs hp sent = Inr (hp', sent')")
      case True
      then show ?thesis using Cons.IH Cons.prems(2) by blast
    next
      case False
      then have sr: "length (buf (Channel oa)) < cap (Channel oa)" "\<not> closed (Channel oa)"
        and run: "publish_loop pick event subs
             (hp(a \<mapsto> oa\<lparr>Channel := (Channel oa)\<lparr>buf := buf (Channel oa) @ [event]\<rparr>\<rparr>)) (sent + 1)
           = Inr (hp', sent')"
        using Cons.prems(1) Some
        by (auto simp add: Let_def try_send_def split: if_splits)
      show ?thesis
      proof (cases "sub = a")
        case True
        then have "obj = oa" using Some Cons.prems(2) by simp
        have "(hp(a \<mapsto> oa\<lparr>Channel := (Channel oa)\<lparr>buf := buf (Channel oa) @ [event]\<rparr>\<rparr>)) sub
            = Some (oa\<lparr>Channel := (Channel oa)\<lparr>buf := buf (Channel oa) @ [event]\<rparr>\<rparr>)"
          using True by simp
        from Cons.IH [OF run this] \<open>obj = oa\<close>
        show ?thesis by auto
      next
        case False
        then have "(hp(a \<mapsto> oa\<lparr>Channel := (Channel oa)\<lparr>buf := buf (Channel oa) @ [event]\<rparr>\<rparr>)) sub
            = Some obj"
          using Cons.prems(2) by simp
        from Cons.IH [OF run this] show ?thesis .
      qed
    qed
  qed
qed

lemma broadcastMessage_messages:
  assumes "broadcastMessage encode message h = Inr h'"
  shows "message_heap h' = message_heap h"
proof (cases "encode (message_heap h message)")
  case None
  then show ?thesis using assms by (simp add: broadcastMessage_def)
next
  case (Some data)
  show ?thesis
  proof (cases "Room (message_heap h message) \<noteq> []")
    case True
    show ?thesis
    proof (cases "map_of (rooms h) (Room (message_heap h message))")
      case None
      then show ?thesis using assms Some True by (simp add: broadcastMessage_def)
    next
      case (Some cl)
      then show ?thesis using assms \<open>encode (message_heap h message) = Some data\<close> True
        by (cases "send_each data (map fst cl) (client_heap h)")
          (auto simp add: broadcastMessage_def)
    qed
  next
    case False
    then show ?thesis using assms Some
      by (cases "send_each data (map fst (clients h)) (client_heap h)")
        (auto simp add: broadcastMessage_def)
  qed
qed

lemma Run_step_messages:
  assumes "Run_step encode cmd h = Inr h'"
  shows "message_heap h' = message_heap h"
proof (cases cmd)
  case (Register c)
  then show ?thesis using assms by (auto simp add: registerClient_def)
next
  case (Unregister c)
  then show ?thesis using assms
    by (auto simp add: unregisterClient_def close_chan_def split: if_splits)
next
  case (JoinRoom c r)
  then show ?thesis using assms by (auto simp add: addClientToRoom_def Let_def)
next
  case (LeaveRoom c r)
  then show ?thesis using assms
    by (auto simp add: removeClientFromRoom_def Let_def split: option.splits)
next
  case (Broadcast m)
  then show ?thesis using assms broadcastMessage_messages by simp
qed

lemma BroadcastToRoom_messages:
  assumes "BroadcastToRoom encode room message h = Inr h'"
  shows "message_heap h' = (message_heap h)(message := (message_heap h message)\<lparr>Room := room\<rparr>)"
  using broadcastMessage_messages [OF assms [unfolded BroadcastToRoom_def]] by simp

lemma Publish_appends:
  assumes "Publish pick now topic payload ps = Inr (ps', sent)" and "heap ps sub = Some obj"
  shows "\<exists>obj' es. heap ps' sub = Some obj' \<and> buf (Channel obj') = buf (Channel obj) @ es \<and>
         set es \<subseteq> {\<lparr>Topic = topic, Payload = payload, Timestamp = now\<rparr>}"
proof (cases "length (topic_subs (subscribers ps) topic) = 0")
  case True
  then show ?thesis using assms by (simp add: Publish_def)
next
  case False
  show ?thesis
  proof (cases "publish_loop pick \<lparr>Topic = topic, Payload = payload, Timestamp = now\<rparr>
      (map snd (topic_subs (subscribers ps) topic)) (heap ps) 0")
    case (Inl e)
    then show ?thesis using assms(1) False by (simp add: Publish_def)
  next
    case (Inr r)
    obtain hp n where r: "r = (hp, n)" by (cases r)
    have "ps' = ps\<lparr>heap := hp\<rparr>"
      using assms(1) False Inr r by (simp add: Publish_def)
    then show ?thesis
      using publish_loop_appends [OF Inr [unfolded r] assms(2)] by simp
  qed
qed

text \<open>
  Claim C9, amended. No iteration of the hub's control loop modifies a message.
  \<open>BroadcastToRoom(room, m)\<close> overwrites the room field of \<open>m\<close> with \<open>room\<close> and leaves
  its type and its payload, and every other message, as they are. \<open>Publish\<close> leaves
  the events already queued for a subscriber in place and only appends the event it
  built from its topic and payload. (The room field of \<open>m\<close> is thus changed by
  \<open>BroadcastToRoom\<close> whenever it differed from \<open>room\<close>; the counterexample shows it.)
\<close>

theorem message_fields_frame:
  "(\<forall>h'. Run_step encode cmd h = Inr h' \<longrightarrow> message_heap h' = message_heap h) \<and>
   (\<forall>h'. BroadcastToRoom encode room message h = Inr h' \<longrightarrow>
      (\<forall>m. Type (message_heap h' m) = Type (message_heap h m) \<and>
           msg_Payload (message_heap h' m) = msg_Payload (message_heap h m) \<and>
           Room (message_heap h' m) = (if m = message then room else Room (message_heap h m)))) \<and>
   (\<forall>ps' sent sub obj. Publish pick now topic payload ps = Inr (ps', sent) \<and> heap ps sub = Some obj \<longrightarrow>
      (\<exists>obj' es. heap ps' sub = Some obj' \<and> buf (Channel obj') = buf (Channel obj) @ es \<and>
         set es \<subseteq> {\<lparr>Topic = topic, Payload = payload, Timestamp = now\<rparr>}))"
proof (intro conjI allI impI)
  fix h' assume "Run_step encode cmd h = Inr h'"
  then show "message_heap h' = message_heap h" by (rule Run_step_messages)
next
  fix h' m assume a: "BroadcastToRoom encode room message h = Inr h'"
  show "Type (message_heap h' m) = Type (message_heap h m)"
    by (simp add: BroadcastToRoom_messages [OF a])
  show "msg_Payload (message_heap h' m) = msg_Payload (message_heap h m)"
    by (simp add: BroadcastToRoom_messages [OF a])
  show "Room (message_heap h' m) = (if m = message then room else Room (message_heap h m))"
    by (simp add: BroadcastToRoom_messages [OF a])
next
  fix ps' sent sub obj
  assume "Publish pick now topic payload ps = Inr (ps', sent) \<and> heap ps sub = Some obj"
  then have "Publish pick now topic payload ps = Inr (ps', sent)" and "heap ps sub = Some obj"
    by simp_all
  then show "\<exists>obj' es. heap ps' sub = Some obj' \<and> buf (Channel obj') = buf (Channel obj) @ es \<and>
         set es \<subseteq> {\<lparr>Topic = topic, Payload = payload, Timestamp = now\<rparr>}"
    by (rule Publish_appends)
qed

theorem message_fields_frame_witness:
  "Run_step encode_ok (JoinRoom 3 ''chat'') chat_hub = Inr (addClientToRoom 3 ''chat'' chat_hub) \<and>
   message_heap (addClientToRoom 3 ''chat'' chat_hub) = message_heap chat_hub \<and>
   (\<exists>h'. BroadcastToRoom encode_ok ''chat'' 0 chat_hub = Inr h' \<and>
      Type (message_heap h' 0) = ''note'' \<and> msg_Payload (message_heap h' 0) = ''hi'' \<and>
      Room (message_heap h' 0) = ''chat'' \<and> Room (message_heap h' 1) = '''')"
proof -
  note t = message_fields_frame [of encode_ok "JoinRoom 3 ''chat''" chat_hub "''chat''" 0]
  have a: "Run_step encode_ok (JoinRoom 3 ''chat'') chat_hub = Inr (addClientToRoom 3 ''chat'' chat_hub)"
    by simp
  have b: "message_heap (addClientToRoom 3 ''chat'' chat_hub) = message_heap chat_hub"
    using t [THEN conjunct1, rule_format, OF a] .
  obtain h' where h': "BroadcastToRoom encode_ok ''chat'' 0 chat_hub = Inr h'"
    by (simp add: BroadcastToRoom_def broadcastMessage_def chat_hub_rooms chat_hub_clients
      chat_hub_messages new_messages_def encode_ok_def try_send_def chat_hub_heap
      NewClient_def make_chan_def)
  have c: "Type (message_heap h' m) = Type (message_heap chat_hub m) \<and>
           msg_Payload (message_heap h' m) = msg_Payload (message_heap chat_hub m) \<and>
           Room (message_heap h' m) = (if m = 0 then ''chat'' else Room (message_heap chat_hub m))" for m
    using t [THEN conjunct2, THEN conjunct1, rule_format, OF h'] by simp
  show ?thesis
    using a b h' c [of 0] c [of 1] by (simp add: chat_hub_messages new_messages_def)
qed

theorem message_room_counterexample:
  "Room (message_heap chat_hub 0) = '''' \<and>
   (case BroadcastToRoom encode_ok ''chat'' 0 chat_hub of
      Inl e \<Rightarrow> ''''
    | Inr h' \<Rightarrow> Room (message_heap h' 0)) = ''chat''"
  by (simp add: BroadcastToRoom_def broadcastMessage_def chat_hub_rooms chat_hub_clients
      chat_hub_messages new_messages_def encode_ok_def try_send_def chat_hub_heap
      NewClient_def make_chan_def)

section \<open>The bus: registry loops, delivery loop and invariant\<close>

lemma topic_subs_update:
  "topic_subs (AList.update topic m reg) t = (if t = topic then m else topic_subs reg t)"
  by (simp add: topic_subs_def update_conv')

lemma topic_subs_delete:
  "topic_subs (AList.delete topic reg) t = (if t = topic then [] else topic_subs reg t)"
  by (simp add: topic_subs_def delete_conv')

lemma topic_subs_subscribe:
  "topic_subs (subscribe_topics sid a topics reg) t =
     (if t \<in> set topics then AList.update sid a (topic_subs reg t) else topic_subs reg t)"
  by (induction topics arbitrary: reg) (auto simp add: topic_subs_update)

lemma topic_subs_unsubscribe:
  "topic_subs (unsubscribe_topics sid topics reg) t =
     (if t \<in> set topics then AList.delete sid (topic_subs reg t) else topic_subs reg t)"
proof (induction topics arbitrary: reg)
  case Nil
  then show ?case by simp
next
  case (Cons topic topics)
  show ?case
  proof (cases "map_of reg topic")
    case None
    then have "topic_subs reg topic = []" by (simp add: topic_subs_def)
    then show ?thesis using None by (auto simp add: Cons.IH)
  next
    case (Some subs)
    then have "topic_subs reg topic = subs" by (simp add: topic_subs_def)
    then show ?thesis using Some
      by (auto simp add: Cons.IH Let_def topic_subs_update topic_subs_delete delete_idem)
  qed
qed

lemma publish_loop_open:
  assumes "distinct subs"
    and "\<forall>s \<in> set subs. \<exists>obj. hp s = Some obj \<and> \<not> closed (Channel obj)"
  shows "publish_loop pick event subs hp sent =
     Inr (\<lambda>s. if s \<in> set subs then
                 (case hp s of
                    None \<Rightarrow> None
                  | Some obj \<Rightarrow>
                      Some (if length (buf (Channel obj)) < cap (Channel obj) \<and> (ctx_done obj \<longrightarrow> pick s)
                            then obj\<lparr>Channel := (Channel obj)\<lparr>buf := buf (Channel obj) @ [event]\<rparr>\<rparr>
                            else obj))
               else hp s,
          sent + int (length (filter
             (\<lambda>s. case hp s of
                     None \<Rightarrow> False
                   | Some obj \<Rightarrow> length (buf (Channel obj)) < cap (Channel obj) \<and> (ctx_done obj \<longrightarrow> pick s))
             subs)))"
  using assms
proof (induction subs arbitrary: hp sent)
  case Nil
  then show ?case by simp
next
  case (Cons a subs)
  obtain oa where oa: "hp a = Some oa" "\<not> closed (Channel oa)"
    using Cons.prems(2) by auto
  have d: "distinct subs" "a \<notin> set subs" using Cons.prems(1) by simp_all
  have o: "\<forall>s \<in> set subs. \<exists>obj. (hp(a \<mapsto> x)) s = Some obj \<and> \<not> closed (Channel obj)" for x
    using Cons.prems(2) d(2) by auto
  have o': "\<forall>s \<in> set subs. \<exists>obj. hp s = Some obj \<and> \<not> closed (Channel obj)"
    using Cons.prems(2) by auto
  have f: "filter (\<lambda>s. case (hp(a \<mapsto> x)) s of None \<Rightarrow> False
              | Some obj \<Rightarrow> length (buf (Channel obj)) < cap (Channel obj) \<and> (ctx_done obj \<longrightarrow> pick s)) subs
         = filter (\<lambda>s. case hp s of None \<Rightarrow> False
              | Some obj \<Rightarrow> length (buf (Channel obj)) < cap (Channel obj) \<and> (ctx_done obj \<longrightarrow> pick s)) subs" for x
    using d(2) by (intro filter_cong) auto
  have ih: "publish_loop pick event subs (hp(a \<mapsto> x)) n =
     Inr (\<lambda>s. if s \<in> set subs then
                 (case hp s of
                    None \<Rightarrow> None
                  | Some obj \<Rightarrow>
                      Some (if length (buf (Channel obj)) < cap (Channel obj) \<and> (ctx_done obj \<longrightarrow> pick s)
                            then obj\<lparr>Channel := (Channel obj)\<lparr>buf := buf (Channel obj) @ [event]\<rparr>\<rparr>
                            else obj))
               else (hp(a \<mapsto> x)) s,
          n + int (length (filter
             (\<lambda>s. case hp s of
                     None \<Rightarrow> False
                   | Some obj \<Rightarrow> length (buf (Channel obj)) < cap (Channel obj) \<and> (ctx_done obj \<longrightarrow> pick s))
             subs)))" for x n
    apply (subst Cons.IH [OF d(1) o])
    apply (subst f)
    using d(2) apply (auto simp add: fun_eq_iff)
    done
  have ih': "publish_loop pick event subs hp n =
     Inr (\<lambda>s. if s \<in> set subs then
                 (case hp s of
                    None \<Rightarrow> None
                  | Some obj \<Rightarrow>
                      Some (if length (buf (Channel obj)) < cap (Channel obj) \<and> (ctx_done obj \<longrightarrow> pick s)
                            then obj\<lparr>Channel := (Channel obj)\<lparr>buf := buf (Channel obj) @ [event]\<rparr>\<rparr>
                            else obj))
               else hp s,
          n + int (length (filter
             (\<lambda>s. case hp s of
                     None \<Rightarrow> False
                   | Some obj \<Rightarrow> length (buf (Channel obj)) < cap (Channel obj) \<and> (ctx_done obj \<longrightarrow> pick s))
             subs)))" for n
    by (rule Cons.IH [OF d(1) o'])
  show ?case
  proof (cases "length (buf (Channel oa)) < cap (Channel oa) \<and> (ctx_done oa \<longrightarrow> pick a)")
    case True
    then show ?thesis
      using oa d(2)
      by (auto simp add: Let_def try_send_def ih fun_eq_iff)
  next
    case False
    then show ?thesis
      using oa d(2)
      by (auto simp add: Let_def try_send_def ih' fun_eq_iff)
  qed
qed

lemma set_update_subset: "set (AList.update k v m) \<subseteq> insert (k, v) (set m)"
  by (induction m) auto

lemma set_delete: "set (AList.delete k m) = {p \<in> set m. fst p \<noteq> k}"
  by (auto simp add: AList.delete_eq)

lemma length_delete_present:
  "distinct (map fst m) \<Longrightarrow> has_key m k \<Longrightarrow> length (AList.delete k m) = length m - 1"
proof (induction m)
  case Nil
  then show ?case by simp
next
  case (Cons p m)
  show ?case
  proof (cases "fst p = k")
    case True
    then have "\<not> has_key m k" using Cons.prems(1) by (simp add: has_key_dom)
    then show ?thesis using True by (simp add: delete_absent)
  next
    case False
    then have "has_key m k" using Cons.prems(2) by (auto simp add: has_key_dom)
    then have "m \<noteq> []" by auto
    then have "0 < length m" by simp
    then show ?thesis using False Cons.IH Cons.prems(1) \<open>has_key m k\<close> by simp
  qed
qed

lemma bus_inv_new: "bus_inv (NewPubSub b)"
  by (simp add: bus_inv_def NewPubSub_def topic_subs_def)

lemma bus_inv_subscribe:
  assumes "bus_inv ps"
  shows "bus_inv (snd (Subscribe parent_done sid topics ps))"
  unfolding bus_inv_def
proof (intro conjI allI impI)
  fix t
  show "distinct (map fst (topic_subs (subscribers (snd (Subscribe parent_done sid topics ps))) t))"
    using assms by (simp add: Subscribe_def Let_def topic_subs_subscribe bus_inv_def distinct_update)
next
  fix t i a
  assume "(i, a) \<in> set (topic_subs (subscribers (snd (Subscribe parent_done sid topics ps))) t)"
  then have "(i, a) \<in> set (topic_subs (subscribers ps) t) \<or> (t \<in> set topics \<and> i = sid \<and> a = nxt ps)"
    using set_update_subset [of sid "nxt ps" "topic_subs (subscribers ps) t"]
    by (auto simp add: Subscribe_def Let_def topic_subs_subscribe split: if_splits)
  then show "\<exists>obj. heap (snd (Subscribe parent_done sid topics ps)) a = Some obj \<and> ID obj = i \<and>
      t \<in> set (Topics obj) \<and> \<not> closed (Channel obj)"
  proof
    assume e: "(i, a) \<in> set (topic_subs (subscribers ps) t)"
    then obtain obj where "heap ps a = Some obj \<and> ID obj = i \<and> t \<in> set (Topics obj) \<and> \<not> closed (Channel obj)"
      using assms unfolding bus_inv_def by blast
    moreover from this have "a < nxt ps" using assms unfolding bus_inv_def by blast
    ultimately show ?thesis by (simp add: Subscribe_def Let_def)
  next
    assume "t \<in> set topics \<and> i = sid \<and> a = nxt ps"
    then show ?thesis by (simp add: Subscribe_def Let_def make_chan_def)
  qed
next
  fix a obj
  assume "heap (snd (Subscribe parent_done sid topics ps)) a = Some obj"
  then have "a = nxt ps \<or> heap ps a \<noteq> None"
    by (auto simp add: Subscribe_def Let_def split: if_splits)
  then show "a < nxt (snd (Subscribe parent_done sid topics ps))"
    using assms unfolding bus_inv_def by (auto simp add: Subscribe_def Let_def less_Suc_eq)
qed

lemma distinct_addresses:
  "distinct (map fst m) \<Longrightarrow> (\<forall>i j a. (i, a) \<in> set m \<and> (j, a) \<in> set m \<longrightarrow> i = j) \<Longrightarrow>
     distinct (map snd m)"
proof (induction m)
  case Nil
  then show ?case by simp
next
  case (Cons p m)
  have "snd p \<notin> snd ` set m"
  proof
    assume "snd p \<in> snd ` set m"
    then obtain j where "(j, snd p) \<in> set m" by auto
    moreover have "(fst p, snd p) \<in> set (p # m)" by simp
    ultimately have "fst p = j" using Cons.prems(2) by (meson list.set_intros(2))
    then show False using Cons.prems(1) \<open>(j, snd p) \<in> set m\<close> by (auto simp add: image_iff)
  qed
  moreover have "distinct (map snd m)"
    using Cons by (simp, meson list.set_intros(2))
  ultimately show ?case by simp
qed

lemma bus_inv_distinct_addresses:
  assumes "bus_inv ps"
  shows "distinct (map snd (topic_subs (subscribers ps) t))"
proof (rule distinct_addresses)
  show "distinct (map fst (topic_subs (subscribers ps) t))"
    using assms by (simp add: bus_inv_def)
  show "\<forall>i j a. (i, a) \<in> set (topic_subs (subscribers ps) t) \<and>
      (j, a) \<in> set (topic_subs (subscribers ps) t) \<longrightarrow> i = j"
  proof (intro allI impI)
    fix i j a
    assume e: "(i, a) \<in> set (topic_subs (subscribers ps) t) \<and> (j, a) \<in> set (topic_subs (subscribers ps) t)"
    obtain oi where "heap ps a = Some oi" "ID oi = i"
      using assms e unfolding bus_inv_def by blast
    moreover obtain oj where "heap ps a = Some oj" "ID oj = j"
      using assms e unfolding bus_inv_def by blast
    ultimately show "i = j" by simp
  qed
qed

lemma bus_inv_registered_open:
  assumes "bus_inv ps" and "a \<in> set (map snd (topic_subs (subscribers ps) t))"
  shows "\<exists>obj. heap ps a = Some obj \<and> \<not> closed (Channel obj)"
proof -
  obtain i where "(i, a) \<in> set (topic_subs (subscribers ps) t)"
    using assms(2) by auto
  then show ?thesis using assms(1) unfolding bus_inv_def by blast
qed

lemma Publish_inv:
  assumes "bus_inv ps"
  shows "Publish pick now topic payload ps =
    Inr (ps\<lparr>heap := (\<lambda>s. if s \<in> set (map snd (topic_subs (subscribers ps) topic)) then
                 (case heap ps s of
                    None \<Rightarrow> None
                  | Some obj \<Rightarrow>
                      Some (if length (buf (Channel obj)) < cap (Channel obj) \<and> (ctx_done obj \<longrightarrow> pick s)
                            then obj\<lparr>Channel := (Channel obj)\<lparr>buf := buf (Channel obj) @
                                   [\<lparr>Topic = topic, Payload = payload, Timestamp = now\<rparr>]\<rparr>\<rparr>
                            else obj))
               else heap ps s)\<rparr>,
         int (length (filter
             (\<lambda>s. case heap ps s of
                     None \<Rightarrow> False
                   | Some obj \<Rightarrow> length (buf (Channel obj)) < cap (Channel obj) \<and> (ctx_done obj \<longrightarrow> pick s))
             (map snd (topic_subs (subscribers ps) topic)))))"
proof (cases "topic_subs (subscribers ps) topic = []")
  case True
  then show ?thesis by (simp add: Publish_def)
next
  case False
  have "\<forall>s \<in> set (map snd (topic_subs (subscribers ps) topic)).
      \<exists>obj. heap ps s = Some obj \<and> \<not> closed (Channel obj)"
    using bus_inv_registered_open [OF assms] by blast
  from publish_loop_open [OF bus_inv_distinct_addresses [OF assms] this]
  show ?thesis using False by (simp add: Publish_def Let_def)
qed

lemma Unsubscribe_open:
  assumes "heap ps sub = Some obj" and "\<not> closed (Channel obj)"
  shows "Unsubscribe sub ps =
    Inr (ps\<lparr>subscribers := unsubscribe_topics (ID obj) (Topics obj) (subscribers ps),
            heap := (heap ps)(sub \<mapsto> obj\<lparr>ctx_done := True, Channel := (Channel obj)\<lparr>closed := True\<rparr>\<rparr>)\<rparr>)"
  using assms by (simp add: Unsubscribe_def close_chan_def)

lemma Unsubscribe_result:
  assumes "Unsubscribe sub ps = Inr ps'"
  shows "\<exists>obj. heap ps sub = Some obj \<and> \<not> closed (Channel obj) \<and>
     ps' = ps\<lparr>subscribers := unsubscribe_topics (ID obj) (Topics obj) (subscribers ps),
            heap := (heap ps)(sub \<mapsto> obj\<lparr>ctx_done := True, Channel := (Channel obj)\<lparr>closed := True\<rparr>\<rparr>)\<rparr>"
proof (cases "heap ps sub")
  case None
  then show ?thesis using assms by (simp add: Unsubscribe_def)
next
  case (Some obj)
  then have "\<not> closed (Channel obj)"
    using assms by (auto simp add: Unsubscribe_def close_chan_def split: if_splits)
  then show ?thesis using Some assms Unsubscribe_open [OF Some] by simp
qed

lemma bus_inv_unsubscribe:
  assumes "bus_inv ps" and "Unsubscribe sub ps = Inr ps'"
  shows "bus_inv ps'"
proof -
  obtain obj where obj: "heap ps sub = Some obj" "\<not> closed (Channel obj)"
    and ps': "ps' = ps\<lparr>subscribers := unsubscribe_topics (ID obj) (Topics obj) (subscribers ps),
            heap := (heap ps)(sub \<mapsto> obj\<lparr>ctx_done := True, Channel := (Channel obj)\<lparr>closed := True\<rparr>\<rparr>)\<rparr>"
    using Unsubscribe_result [OF assms(2)] by blast
  have sub: "topic_subs (subscribers ps') t =
      (if t \<in> set (Topics obj) then AList.delete (ID obj) (topic_subs (subscribers ps) t)
       else topic_subs (subscribers ps) t)" for t
    by (simp add: ps' topic_subs_unsubscribe)
  show ?thesis
    unfolding bus_inv_def
  proof (intro conjI allI impI)
    fix t
    show "distinct (map fst (topic_subs (subscribers ps') t))"
      using assms(1) by (simp add: sub bus_inv_def distinct_delete)
  next
    fix t i a
    assume e: "(i, a) \<in> set (topic_subs (subscribers ps') t)"
    then have old: "(i, a) \<in> set (topic_subs (subscribers ps) t)"
      and ne: "t \<in> set (Topics obj) \<longrightarrow> i \<noteq> ID obj"
      by (auto simp add: sub set_delete split: if_splits)
    obtain oa where oa: "heap ps a = Some oa" "ID oa = i" "t \<in> set (Topics oa)" "\<not> closed (Channel oa)"
      using assms(1) old unfolding bus_inv_def by blast
    have "a \<noteq> sub"
    proof
      assume "a = sub"
      then have "oa = obj" using oa(1) obj(1) by simp
      then show False using oa ne by simp
    qed
    then show "\<exists>obj. heap ps' a = Some obj \<and> ID obj = i \<and> t \<in> set (Topics obj) \<and> \<not> closed (Channel obj)"
      using oa by (simp add: ps')
  next
    fix a o'
    assume "heap ps' a = Some o'"
    then have "heap ps a \<noteq> None" using obj(1) by (auto simp add: ps' split: if_splits)
    then show "a < nxt ps'" using assms(1) unfolding bus_inv_def by (auto simp add: ps')
  qed
qed

lemma unsubscribed_absent:
  assumes "bus_inv ps" and "Unsubscribe sub ps = Inr ps'"
  shows "sub \<notin> snd ` set (topic_subs (subscribers ps') t)"
proof
  assume "sub \<in> snd ` set (topic_subs (subscribers ps') t)"
  then obtain i where "(i, sub) \<in> set (topic_subs (subscribers ps') t)" by auto
  then obtain o' where o': "heap ps' sub = Some o'" "\<not> closed (Channel o')"
    using bus_inv_unsubscribe [OF assms] unfolding bus_inv_def by blast
  obtain obj where "heap ps' sub = Some (obj\<lparr>ctx_done := True, Channel := (Channel obj)\<lparr>closed := True\<rparr>\<rparr>)"
    using Unsubscribe_result [OF assms(2)] by auto
  then have "closed (Channel o')" using o'(1) by auto
  then show False using o'(2) by simp
qed

lemma bus_inv_publish:
  assumes "bus_inv ps" and "Publish pick now topic payload ps = Inr (ps', sent)"
  shows "bus_inv ps'"
proof -
  have ps': "ps' = ps\<lparr>heap := (\<lambda>s. if s \<in> set (map snd (topic_subs (subscribers ps) topic)) then
                 (case heap ps s of
                    None \<Rightarrow> None
                  | Some obj \<Rightarrow>
                      Some (if length (buf (Channel obj)) < cap (Channel obj) \<and> (ctx_done obj \<longrightarrow> pick s)
                            then obj\<lparr>Channel := (Channel obj)\<lparr>buf := buf (Channel obj) @
                                   [\<lparr>Topic = topic, Payload = payload, Timestamp = now\<rparr>]\<rparr>\<rparr>
                            else obj))
               else heap ps s)\<rparr>"
    using assms(2) unfolding Publish_inv [OF assms(1)] by simp
  have h: "\<exists>o'. heap ps' a = Some o' \<and> ID o' = ID obj \<and> Topics o' = Topics obj \<and>
      closed (Channel o') = closed (Channel obj)" if "heap ps a = Some obj" for a obj
    using that by (simp add: ps')
  have n: "heap ps a \<noteq> None" if "heap ps' a = Some o'" for a o'
    using that by (auto simp add: ps' split: if_splits option.splits)
  show ?thesis
    unfolding bus_inv_def
  proof (intro conjI allI impI)
    fix t
    show "distinct (map fst (topic_subs (subscribers ps') t))"
      using assms(1) by (simp add: ps' bus_inv_def)
  next
    fix t i a
    assume "(i, a) \<in> set (topic_subs (subscribers ps') t)"
    then have "(i, a) \<in> set (topic_subs (subscribers ps) t)" by (simp add: ps')
    then obtain oa where oa: "heap ps a = Some oa" "ID oa = i" "t \<in> set (Topics oa)" "\<not> closed (Channel oa)"
      using assms(1) unfolding bus_inv_def by blast
    then show "\<exists>obj. heap ps' a = Some obj \<and> ID obj = i \<and> t \<in> set (Topics obj) \<and> \<not> closed (Channel obj)"
      using h [OF oa(1)] by auto
  next
    fix a o'
    assume "heap ps' a = Some o'"
    then have "heap ps a \<noteq> None" by (rule n)
    then show "a < nxt ps'" using assms(1) unfolding bus_inv_def by (auto simp add: ps')
  qed
qed

lemma Publish_no_subscribers:
  "topic_subs (subscribers ps) topic = [] \<Longrightarrow> Publish pick now topic payload ps = Inr (ps, 0)"
  by (simp add: Publish_def)

lemma scenario_s1:
  fixes x y z :: 'p
  shows "\<exists>s1 ps1 ps2 ps3 ps4 ps5.
     Subscribe False ''s1'' [''a'', ''b''] (NewPubSub b :: 'p PubSub) = (s1, ps1) \<and>
     Publish p1 n1 ''a'' x ps1 = Inr (ps2, 1) \<and>
     Publish p2 n2 ''c'' y ps2 = Inr (ps3, 0) \<and>
     Unsubscribe s1 ps3 = Inr ps4 \<and>
     Publish p3 n3 ''a'' z ps4 = Inr (ps5, 0)"
proof -
  define ps0 :: "'p PubSub" where "ps0 = NewPubSub b"
  define ps1 where "ps1 = snd (Subscribe False ''s1'' [''a'', ''b''] ps0)"
  have size: "0 < bufferSize ps0" by (simp add: ps0_def NewPubSub_def)
  have s: "Subscribe False ''s1'' [''a'', ''b''] ps0 = (0, ps1)"
    by (simp add: ps1_def Subscribe_def Let_def ps0_def NewPubSub_def)
  have inv1: "bus_inv ps1"
    unfolding ps1_def ps0_def by (intro bus_inv_subscribe bus_inv_new)
  have subs1: "topic_subs (subscribers ps1) t = (if t = ''a'' \<or> t = ''b'' then [(''s1'', 0)] else [])" for t
    by (simp add: ps1_def Subscribe_def Let_def ps0_def NewPubSub_def topic_subs_subscribe)
      (simp add: topic_subs_def)
  have heap1: "heap ps1 0 = Some \<lparr>ID = ''s1'', Topics = [''a'', ''b''],
      Channel = make_chan (nat (bufferSize ps0)), ctx_done = False\<rparr>"
    by (simp add: ps1_def Subscribe_def Let_def ps0_def NewPubSub_def)
  obtain ps2 where p1: "Publish p1 n1 ''a'' x ps1 = Inr (ps2, 1)"
    using size by (simp add: Publish_inv [OF inv1] subs1 heap1 make_chan_def)
  have inv2: "bus_inv ps2" using bus_inv_publish [OF inv1 p1] .
  have subs2: "subscribers ps2 = subscribers ps1"
    using p1 unfolding Publish_inv [OF inv1] by auto
  have p2: "Publish p2 n2 ''c'' y ps2 = Inr (ps2, 0)"
    by (rule Publish_no_subscribers) (simp add: subs2 subs1)
  obtain o2 where heap2: "heap ps2 0 = Some o2" "ID o2 = ''s1''" "Topics o2 = [''a'', ''b'']"
      "\<not> closed (Channel o2)"
    using p1 unfolding Publish_inv [OF inv1] by (auto simp add: heap1 make_chan_def subs1)
  obtain ps4 where u: "Unsubscribe 0 ps2 = Inr ps4"
    and subs4: "subscribers ps4 = unsubscribe_topics ''s1'' [''a'', ''b''] (subscribers ps2)"
    using Unsubscribe_open [OF heap2(1) heap2(4)] heap2 by simp
  have p3: "Publish p3 n3 ''a'' z ps4 = Inr (ps4, 0)"
    by (rule Publish_no_subscribers) (simp add: subs4 topic_subs_unsubscribe subs2 subs1 del: unsubscribe_topics.simps)
  show ?thesis using s p1 p2 u p3 unfolding ps0_def by blast
qed

lemma bus_one_inv: "bus_inv bus_one"
  unfolding bus_one_def by (intro bus_inv_subscribe bus_inv_new)

lemma bus_one_subs:
  "topic_subs (subscribers bus_one) t = (if t = ''a'' \<or> t = ''b'' then [(''s1'', 0)] else [])"
  by (simp add: bus_one_def Subscribe_def Let_def NewPubSub_def topic_subs_subscribe
        del: subscribe_topics.simps)
    (simp add: topic_subs_def)

lemma bus_one_heap:
  "heap bus_one = [0 \<mapsto> \<lparr>ID = ''s1'', Topics = [''a'', ''b''],
      Channel = \<lparr>buf = [], cap = 1, closed = False\<rparr>, ctx_done = False\<rparr>]"
  by (simp add: bus_one_def Subscribe_def Let_def NewPubSub_def make_chan_def)

lemma publish_general:
  assumes "bus_inv ps"
  shows "\<exists>ps' sent. Publish pick now topic payload ps = Inr (ps', sent) \<and>
     subscribers ps' = subscribers ps \<and>
     (\<forall>sub obj. heap ps sub = Some obj \<longrightarrow>
        heap ps' sub = Some obj \<or>
        heap ps' sub = Some (obj\<lparr>Channel := (Channel obj)\<lparr>buf := buf (Channel obj) @
            [\<lparr>Topic = topic, Payload = payload, Timestamp = now\<rparr>]\<rparr>\<rparr>)) \<and>
     (\<forall>sub obj. sub \<in> snd ` set (topic_subs (subscribers ps) topic) \<and> heap ps sub = Some obj \<and>
          \<not> ctx_done obj \<and> length (buf (Channel obj)) < cap (Channel obj) \<longrightarrow>
        heap ps' sub = Some (obj\<lparr>Channel := (Channel obj)\<lparr>buf := buf (Channel obj) @
            [\<lparr>Topic = topic, Payload = payload, Timestamp = now\<rparr>]\<rparr>\<rparr>)) \<and>
     (\<forall>sub. sub \<notin> snd ` set (topic_subs (subscribers ps) topic) \<longrightarrow> heap ps' sub = heap ps sub) \<and>
     (\<forall>sub obj. heap ps sub = Some obj \<and> cap (Channel obj) \<le> length (buf (Channel obj)) \<longrightarrow>
        heap ps' sub = Some obj) \<and>
     sent = int (card {sub \<in> snd ` set (topic_subs (subscribers ps) topic). heap ps' sub \<noteq> heap ps sub}) \<and>
     (topic_subs (subscribers ps) topic = [] \<longrightarrow> sent = 0 \<and> ps' = ps)"
proof -
  let ?subs = "map snd (topic_subs (subscribers ps) topic)"
  let ?ev = "\<lparr>Topic = topic, Payload = payload, Timestamp = now\<rparr>"
  let ?P = "\<lambda>s. case heap ps s of None \<Rightarrow> False
      | Some obj \<Rightarrow> length (buf (Channel obj)) < cap (Channel obj) \<and> (ctx_done obj \<longrightarrow> pick s)"
  define hp where "hp = (\<lambda>s. if s \<in> set ?subs then
                 (case heap ps s of
                    None \<Rightarrow> None
                  | Some obj \<Rightarrow>
                      Some (if length (buf (Channel obj)) < cap (Channel obj) \<and> (ctx_done obj \<longrightarrow> pick s)
                            then obj\<lparr>Channel := (Channel obj)\<lparr>buf := buf (Channel obj) @ [?ev]\<rparr>\<rparr>
                            else obj))
               else heap ps s)"
  define ps' where "ps' = ps\<lparr>heap := hp\<rparr>"
  define n where "n = int (length (filter ?P ?subs))"
  have r: "Publish pick now topic payload ps = Inr (ps', n)"
    unfolding hp_def ps'_def n_def by (rule Publish_inv [OF assms])
  have hps: "heap ps' = hp" and s: "subscribers ps' = subscribers ps"
    by (simp_all add: ps'_def)
  have ne: "obj\<lparr>Channel := (Channel obj)\<lparr>buf := buf (Channel obj) @ [?ev]\<rparr>\<rparr> \<noteq> obj" for obj :: "'a Subscriber"
  proof
    assume "obj\<lparr>Channel := (Channel obj)\<lparr>buf := buf (Channel obj) @ [?ev]\<rparr>\<rparr> = obj"
    then have "buf (Channel (obj\<lparr>Channel := (Channel obj)\<lparr>buf := buf (Channel obj) @ [?ev]\<rparr>\<rparr>))
        = buf (Channel obj)" by simp
    then show False by simp
  qed
  have changed: "(hp s \<noteq> heap ps s) = ?P s" if mem: "s \<in> set ?subs" for s
  proof -
    obtain obj where "heap ps s = Some obj"
      using bus_inv_registered_open [OF assms mem] by blast
    then show ?thesis using mem ne [of obj] by (simp add: hp_def)
  qed
  have "length (filter ?P ?subs) = card ({s. ?P s} \<inter> set ?subs)"
    using bus_inv_distinct_addresses [OF assms] by (rule distinct_length_filter)
  also have "({s. ?P s} \<inter> set ?subs) = {s \<in> set ?subs. hp s \<noteq> heap ps s}"
    using changed by blast
  finally have count: "n
      = int (card {sub \<in> snd ` set (topic_subs (subscribers ps) topic). heap ps' sub \<noteq> heap ps sub})"
    by (simp add: n_def hps)
  have a: "heap ps sub = Some obj \<longrightarrow> heap ps' sub = Some obj \<or>
        heap ps' sub = Some (obj\<lparr>Channel := (Channel obj)\<lparr>buf := buf (Channel obj) @ [?ev]\<rparr>\<rparr>)" for sub obj
    by (simp add: hps hp_def)
  have b: "sub \<in> snd ` set (topic_subs (subscribers ps) topic) \<and> heap ps sub = Some obj \<and>
          \<not> ctx_done obj \<and> length (buf (Channel obj)) < cap (Channel obj) \<longrightarrow>
        heap ps' sub = Some (obj\<lparr>Channel := (Channel obj)\<lparr>buf := buf (Channel obj) @ [?ev]\<rparr>\<rparr>)" for sub obj
    by (simp add: hps hp_def)
  have c: "sub \<notin> snd ` set (topic_subs (subscribers ps) topic) \<longrightarrow> heap ps' sub = heap ps sub" for sub
    by (simp add: hps hp_def)
  have d: "heap ps sub = Some obj \<and> cap (Channel obj) \<le> length (buf (Channel obj)) \<longrightarrow>
        heap ps' sub = Some obj" for sub obj
    by (simp add: hps hp_def)
  have e: "topic_subs (subscribers ps) topic = [] \<longrightarrow> n = 0 \<and> ps' = ps"
    by (simp add: n_def ps'_def hp_def)
  show ?thesis
    by (intro exI [of _ ps'] exI [of _ n] conjI allI r s a b c d count e)
qed

section \<open>Publishing\<close>

text \<open>
  What \<open>Publish(topic, payload)\<close> does in a well-formed state of the bus: it returns
  without a panic, leaves the registry as it is and changes a subscriber only by
  appending the event to its queue. Every subscriber of the topic whose context is not
  cancelled and whose queue has room has the event appended; a subscriber outside the
  topic, or with a full queue, is left unchanged. The number returned is the number of
  subscribers of the topic whose queue received the event, and it is 0, with the state
  unchanged, when the topic has no subscriber. After subscribing id "s1" to topics "a"
  and "b" on a context that is not cancelled, publishing to "a" returns 1, publishing to
  "c" returns 0, and after unsubscribing, publishing to "a" returns 0. Nothing here says
  that a subscriber whose context is cancelled is skipped: see the theorem after it.
\<close>

lemma publish_well_formed:
  fixes payload x y z :: 'p
  shows
  "(bus_inv ps \<longrightarrow>
     (\<exists>ps' sent. Publish pick now topic payload ps = Inr (ps', sent) \<and>
        subscribers ps' = subscribers ps \<and>
        (\<forall>sub obj. heap ps sub = Some obj \<longrightarrow>
           heap ps' sub = Some obj \<or>
           heap ps' sub = Some (obj\<lparr>Channel := (Channel obj)\<lparr>buf := buf (Channel obj) @
               [\<lparr>Topic = topic, Payload = payload, Timestamp = now\<rparr>]\<rparr>\<rparr>)) \<and>
        (\<forall>sub obj. sub \<in> snd ` set (topic_subs (subscribers ps) topic) \<and> heap ps sub = Some obj \<and>
             \<not> ctx_done obj \<and> length (buf (Channel obj)) < cap (Channel obj) \<longrightarrow>
           heap ps' sub = Some (obj\<lparr>Channel := (Channel obj)\<lparr>buf := buf (Channel obj) @
               [\<lparr>Topic = topic, Payload = payload, Timestamp = now\<rparr>]\<rparr>\<rparr>)) \<and>
        (\<forall>sub. sub \<notin> snd ` set (topic_subs (subscribers ps) topic) \<longrightarrow> heap ps' sub = heap ps sub) \<and>
        (\<forall>sub obj. heap ps sub = Some obj \<and> cap (Channel obj) \<le> length (buf (Channel obj)) \<longrightarrow>
           heap ps' sub = Some obj) \<and>
        sent = int (card {sub \<in> snd ` set (topic_subs (subscribers ps) topic).
                            heap ps' sub \<noteq> heap ps sub}) \<and>
        (topic_subs (subscribers ps) topic = [] \<longrightarrow> sent = 0 \<and> ps' = ps))) \<and>
   (\<exists>s1 ps1 ps2 ps3 ps4 ps5.
      Subscribe False ''s1'' [''a'', ''b''] (NewPubSub b :: 'p PubSub) = (s1, ps1) \<and>
      Publish p1 n1 ''a'' x ps1 = Inr (ps2, 1) \<and>
      Publish p2 n2 ''c'' y ps2 = Inr (ps3, 0) \<and>
      Unsubscribe s1 ps3 = Inr ps4 \<and>
      Publish p3 n3 ''a'' z ps4 = Inr (ps5, 0))"
proof (rule conjI)
  show "bus_inv ps \<longrightarrow>
     (\<exists>ps' sent. Publish pick now topic payload ps = Inr (ps', sent) \<and>
        subscribers ps' = subscribers ps \<and>
        (\<forall>sub obj. heap ps sub = Some obj \<longrightarrow>
           heap ps' sub = Some obj \<or>
           heap ps' sub = Some (obj\<lparr>Channel := (Channel obj)\<lparr>buf := buf (Channel obj) @
               [\<lparr>Topic = topic, Payload = payload, Timestamp = now\<rparr>]\<rparr>\<rparr>)) \<and>
        (\<forall>sub obj. sub \<in> snd ` set (topic_subs (subscribers ps) topic) \<and> heap ps sub = Some obj \<and>
             \<not> ctx_done obj \<and> length (buf (Channel obj)) < cap (Channel obj) \<longrightarrow>
           heap ps' sub = Some (obj\<lparr>Channel := (Channel obj)\<lparr>buf := buf (Channel obj) @
               [\<lparr>Topic = topic, Payload = payload, Timestamp = now\<rparr>]\<rparr>\<rparr>)) \<and>
        (\<forall>sub. sub \<notin> snd ` set (topic_subs (subscribers ps) topic) \<longrightarrow> heap ps' sub = heap ps sub) \<and>
        (\<forall>sub obj. heap ps sub = Some obj \<and> cap (Channel obj) \<le> length (buf (Channel obj)) \<longrightarrow>
           heap ps' sub = Some obj) \<and>
        sent = int (card {sub \<in> snd ` set (topic_subs (subscribers ps) topic).
                            heap ps' sub \<noteq> heap ps sub}) \<and>
        (topic_subs (subscribers ps) topic = [] \<longrightarrow> sent = 0 \<and> ps' = ps))"
    by (rule impI) (rule publish_general)
  show "\<exists>s1 ps1 ps2 ps3 ps4 ps5.
      Subscribe False ''s1'' [''a'', ''b''] (NewPubSub b :: 'p PubSub) = (s1, ps1) \<and>
      Publish p1 n1 ''a'' x ps1 = Inr (ps2, 1) \<and>
      Publish p2 n2 ''c'' y ps2 = Inr (ps3, 0) \<and>
      Unsubscribe s1 ps3 = Inr ps4 \<and>
      Publish p3 n3 ''a'' z ps4 = Inr (ps5, 0)"
    by (rule scenario_s1)
qed

lemma publish_well_formed_example:
  "bus_inv bus_one \<and>
   (\<exists>ps' sent. Publish (\<lambda>sub. True) 7 ''a'' ''x'' bus_one = Inr (ps', sent) \<and>
      heap ps' 0 = Some \<lparr>ID = ''s1'', Topics = [''a'', ''b''],
        Channel = \<lparr>buf = [\<lparr>Topic = ''a'', Payload = ''x'', Timestamp = 7\<rparr>], cap = 1, closed = False\<rparr>,
        ctx_done = False\<rparr>)"
proof -
  let ?obj = "\<lparr>ID = ''s1'', Topics = [''a'', ''b''],
      Channel = \<lparr>buf = [], cap = 1, closed = False\<rparr>, ctx_done = False\<rparr> :: string Subscriber"
  have m: "0 \<in> snd ` set (topic_subs (subscribers bus_one) ''a'') \<and> heap bus_one 0 = Some ?obj \<and>
      \<not> ctx_done ?obj \<and> length (buf (Channel ?obj)) < cap (Channel ?obj)"
    by (simp add: bus_one_subs bus_one_heap)
  obtain ps' sent where p: "Publish (\<lambda>sub. True) 7 ''a'' ''x'' bus_one = Inr (ps', sent)"
    and d: "\<forall>sub obj. sub \<in> snd ` set (topic_subs (subscribers bus_one) ''a'') \<and>
             heap bus_one sub = Some obj \<and>
             \<not> ctx_done obj \<and> length (buf (Channel obj)) < cap (Channel obj) \<longrightarrow>
           heap ps' sub = Some (obj\<lparr>Channel := (Channel obj)\<lparr>buf := buf (Channel obj) @
               [\<lparr>Topic = ''a'', Payload = ''x'', Timestamp = 7\<rparr>]\<rparr>\<rparr>)"
    using publish_well_formed [where ps = bus_one and pick = "\<lambda>sub. True" and now = 7
        and topic = "''a''" and payload = "''x''", THEN conjunct1, rule_format, OF bus_one_inv]
    by (elim exE conjE)
  from d m have "heap ps' 0 = Some (?obj\<lparr>Channel := (Channel ?obj)\<lparr>buf := buf (Channel ?obj) @
               [\<lparr>Topic = ''a'', Payload = ''x'', Timestamp = 7\<rparr>]\<rparr>\<rparr>)"
    by blast
  then show ?thesis using p bus_one_inv by simp
qed

lemma bus_cancelled_subs: "topic_subs (subscribers bus_cancelled) ''a'' = [(''s1'', 0)]"
  by (simp add: bus_cancelled_def Subscribe_def Let_def NewPubSub_def topic_subs_def)

lemma bus_cancelled_heap:
  "heap bus_cancelled = [0 \<mapsto> \<lparr>ID = ''s1'', Topics = [''a''],
      Channel = \<lparr>buf = [], cap = 1, closed = False\<rparr>, ctx_done = True\<rparr>]"
  by (simp add: bus_cancelled_def Subscribe_def Let_def NewPubSub_def make_chan_def)

text \<open>
  Claim C2 says that \<open>Publish\<close> delivers to the subscribers whose cancellation scope is
  still active, and that a subscriber skipped because its scope is cancelled is not
  counted; the comment in the code says the same ("Subscriber context cancelled, skip").
  The code does not skip reliably. For a subscriber whose context is cancelled and whose
  queue has room, both the receive from \<open>sub.ctx.Done()\<close> and the send can proceed, and
  the \<open>select\<close> picks one of them at random: when it picks the send, the cancelled
  subscriber receives the event and is counted (first call below, which returns 1);
  when it picks the receive, the subscriber is skipped (second call, which returns 0).
\<close>

theorem publish_counts_cancelled_subscriber:
  "heap bus_cancelled 0 =
     Some \<lparr>ID = ''s1'', Topics = [''a''],
           Channel = \<lparr>buf = [], cap = 1, closed = False\<rparr>, ctx_done = True\<rparr> \<and>
   (case Publish (\<lambda>sub. True) 5 ''a'' ''x'' bus_cancelled of
      Inl e \<Rightarrow> None
    | Inr (ps', sent) \<Rightarrow> Some (sent, heap ps' 0)) =
     Some (1, Some \<lparr>ID = ''s1'', Topics = [''a''],
                    Channel = \<lparr>buf = [\<lparr>Topic = ''a'', Payload = ''x'', Timestamp = 5\<rparr>],
                               cap = 1, closed = False\<rparr>,
                    ctx_done = True\<rparr>) \<and>
   (case Publish (\<lambda>sub. False) 5 ''a'' ''x'' bus_cancelled of
      Inl e \<Rightarrow> None
    | Inr (ps', sent) \<Rightarrow> Some (sent, heap ps' 0)) =
     Some (0, Some \<lparr>ID = ''s1'', Topics = [''a''],
                    Channel = \<lparr>buf = [], cap = 1, closed = False\<rparr>, ctx_done = True\<rparr>)"
  by (simp add: Publish_def bus_cancelled_subs bus_cancelled_heap)

section \<open>Unsubscribing\<close>

lemma count_after_unsubscribe:
  assumes "bus_inv ps" and "heap ps sub = Some obj" and "Unsubscribe sub ps = Inr ps1"
  shows "GetSubscriberCount t ps1 =
     GetSubscriberCount t ps -
       (if t \<in> set (Topics obj) \<and> has_key (topic_subs (subscribers ps) t) (ID obj) then 1 else 0)"
proof -
  have ps1: "subscribers ps1 = unsubscribe_topics (ID obj) (Topics obj) (subscribers ps)"
    using Unsubscribe_result [OF assms(3)] assms(2) by auto
  have d: "distinct (map fst (topic_subs (subscribers ps) t))"
    using assms(1) by (simp add: bus_inv_def)
  show ?thesis
  proof (cases "t \<in> set (Topics obj) \<and> has_key (topic_subs (subscribers ps) t) (ID obj)")
    case True
    then have "topic_subs (subscribers ps) t \<noteq> []" by auto
    then have "int (length (topic_subs (subscribers ps) t) - 1)
        = int (length (topic_subs (subscribers ps) t)) - 1"
      by (cases "topic_subs (subscribers ps) t") simp_all
    then show ?thesis using True length_delete_present [OF d, of "ID obj"]
      by (simp add: GetSubscriberCount_def ps1 topic_subs_unsubscribe)
  next
    case False
    then show ?thesis
      by (auto simp add: GetSubscriberCount_def ps1 topic_subs_unsubscribe delete_absent)
  qed
qed

lemma registered_has_key:
  assumes "bus_inv ps" and "heap ps sub = Some obj"
    and "sub \<in> snd ` set (topic_subs (subscribers ps) t)"
  shows "t \<in> set (Topics obj) \<and> has_key (topic_subs (subscribers ps) t) (ID obj)"
proof -
  obtain i where i: "(i, sub) \<in> set (topic_subs (subscribers ps) t)"
    using assms(3) by auto
  then obtain o' where "heap ps sub = Some o'" "ID o' = i" "t \<in> set (Topics o')"
    using assms(1) unfolding bus_inv_def by blast
  then have "ID obj = i" "t \<in> set (Topics obj)" using assms(2) by simp_all
  then show ?thesis using i by (force simp add: has_key_dom)
qed

text \<open>An unsubscribed subscriber stays out of the registry and its object stays as it is.\<close>

lemma retired_step:
  assumes "bus_inv ps" and "heap ps sub = Some c"
    and "\<forall>t. sub \<notin> snd ` set (topic_subs (subscribers ps) t)"
    and "call \<noteq> CallUnsubscribe sub" and "bus_step call ps = Inr ps'"
  shows "bus_inv ps' \<and> heap ps' sub = Some c \<and>
     (\<forall>t. sub \<notin> snd ` set (topic_subs (subscribers ps') t))"
proof (cases call)
  case (CallSubscribe parent_done sid topics)
  then have ps': "ps' = snd (Subscribe parent_done sid topics ps)"
    using assms(5) by simp
  have lt: "sub < nxt ps" using assms(1,2) unfolding bus_inv_def by blast
  have "bus_inv ps'" unfolding ps' by (rule bus_inv_subscribe [OF assms(1)])
  moreover have "heap ps' sub = Some c"
    using lt assms(2) by (simp add: ps' Subscribe_def Let_def)
  moreover have "sub \<notin> snd ` set (topic_subs (subscribers ps') t)" for t
  proof
    assume "sub \<in> snd ` set (topic_subs (subscribers ps') t)"
    then obtain i where "(i, sub) \<in> set (topic_subs (subscribers ps') t)" by auto
    then have "(i, sub) \<in> insert (sid, nxt ps) (set (topic_subs (subscribers ps) t))"
      using set_update_subset [of sid "nxt ps" "topic_subs (subscribers ps) t"]
      by (auto simp add: ps' Subscribe_def Let_def topic_subs_subscribe split: if_splits)
    then have "(i, sub) \<in> set (topic_subs (subscribers ps) t)" using lt by auto
    then have "sub \<in> snd ` set (topic_subs (subscribers ps) t)" by force
    then show False using assms(3) by blast
  qed
  ultimately show ?thesis by blast
next
  case (CallUnsubscribe s)
  then have u: "Unsubscribe s ps = Inr ps'" and ne: "s \<noteq> sub"
    using assms(4,5) by simp_all
  obtain obj where ps': "ps' = ps\<lparr>subscribers := unsubscribe_topics (ID obj) (Topics obj) (subscribers ps),
            heap := (heap ps)(s \<mapsto> obj\<lparr>ctx_done := True, Channel := (Channel obj)\<lparr>closed := True\<rparr>\<rparr>)\<rparr>"
    using Unsubscribe_result [OF u] by blast
  have "bus_inv ps'" by (rule bus_inv_unsubscribe [OF assms(1) u])
  moreover have "heap ps' sub = Some c" using ne assms(2) by (simp add: ps')
  moreover have "sub \<notin> snd ` set (topic_subs (subscribers ps') t)" for t
  proof
    assume "sub \<in> snd ` set (topic_subs (subscribers ps') t)"
    then obtain i where "(i, sub) \<in> set (topic_subs (subscribers ps') t)" by auto
    then have "(i, sub) \<in> set (topic_subs (subscribers ps) t)"
      by (auto simp add: ps' topic_subs_unsubscribe set_delete split: if_splits)
    then have "sub \<in> snd ` set (topic_subs (subscribers ps) t)" by force
    then show False using assms(3) by blast
  qed
  ultimately show ?thesis by blast
next
  case (CallPublish pick now topic payload)
  then obtain sent where p: "Publish pick now topic payload ps = Inr (ps', sent)"
    using assms(5) by (auto split: sum.splits)
  have "bus_inv ps'" by (rule bus_inv_publish [OF assms(1) p])
  moreover have "heap ps' sub = Some c" and "subscribers ps' = subscribers ps"
    using p assms(2,3) unfolding Publish_inv [OF assms(1)] by auto
  ultimately show ?thesis using assms(3) by simp
qed

lemma retired_run:
  assumes "bus_inv ps" and "heap ps sub = Some c"
    and "\<forall>t. sub \<notin> snd ` set (topic_subs (subscribers ps) t)"
    and "CallUnsubscribe sub \<notin> set calls" and "bus_run calls ps = Inr ps'"
  shows "heap ps' sub = Some c \<and> (\<forall>t. sub \<notin> snd ` set (topic_subs (subscribers ps') t))"
  using assms
proof (induction calls arbitrary: ps)
  case Nil
  then show ?case by simp
next
  case (Cons call calls)
  obtain ps1 where s: "bus_step call ps = Inr ps1" and r: "bus_run calls ps1 = Inr ps'"
    using Cons.prems(5) by (cases "bus_step call ps") simp_all
  have ne: "call \<noteq> CallUnsubscribe sub" and rest: "CallUnsubscribe sub \<notin> set calls"
    using Cons.prems(4) by auto
  from retired_step [OF Cons.prems(1-3) ne s]
  have "bus_inv ps1" "heap ps1 sub = Some c"
    "\<forall>t. sub \<notin> snd ` set (topic_subs (subscribers ps1) t)"
    by simp_all
  then show ?case using Cons.IH rest r by blast
qed

text \<open>
  Claim C4, amended. In a well-formed state of the bus, unsubscribing a subscriber whose
  queue is open returns without a panic and closes the queue: the queue was open, it is
  closed afterwards, its entries are kept and no other subscriber is touched. Afterwards
  the subscriber is in no topic's registry; the subscriber count of every topic in which
  it was registered has dropped by exactly one (in general: by one for each topic of
  its \<open>Topics\<close> that had an entry under its id, by nothing for any other topic); and no
  later run of bus calls that does not unsubscribe it again writes to its queue or
  registers it again; in particular \<open>Publish\<close> never reaches the closed queue. (A second
  \<open>Unsubscribe\<close> of the same subscriber closes the closed queue again, which panics;
  the counterexample shows it.)
\<close>

theorem unsubscribe_closes_queue:
  assumes "bus_inv ps" and "heap ps sub = Some obj" and "\<not> closed (Channel obj)"
  shows "\<exists>ps1. Unsubscribe sub ps = Inr ps1 \<and> bus_inv ps1 \<and>
     heap ps1 sub = Some (obj\<lparr>ctx_done := True, Channel := (Channel obj)\<lparr>closed := True\<rparr>\<rparr>) \<and>
     (\<forall>a. a \<noteq> sub \<longrightarrow> heap ps1 a = heap ps a) \<and>
     (\<forall>t. sub \<notin> snd ` set (topic_subs (subscribers ps1) t)) \<and>
     (\<forall>t. sub \<in> snd ` set (topic_subs (subscribers ps) t) \<longrightarrow>
        GetSubscriberCount t ps1 = GetSubscriberCount t ps - 1) \<and>
     (\<forall>t. GetSubscriberCount t ps1 =
        GetSubscriberCount t ps -
          (if t \<in> set (Topics obj) \<and> has_key (topic_subs (subscribers ps) t) (ID obj) then 1 else 0)) \<and>
     (\<forall>calls ps2. CallUnsubscribe sub \<notin> set calls \<and> bus_run calls ps1 = Inr ps2 \<longrightarrow>
        heap ps2 sub = heap ps1 sub \<and>
        (\<forall>t. sub \<notin> snd ` set (topic_subs (subscribers ps2) t))) \<and>
     (\<forall>pick now t payload. \<exists>ps2 sent.
        Publish pick now t payload ps1 = Inr (ps2, sent) \<and> heap ps2 sub = heap ps1 sub)"
proof -
  define ps1 where "ps1 = ps\<lparr>subscribers := unsubscribe_topics (ID obj) (Topics obj) (subscribers ps),
            heap := (heap ps)(sub \<mapsto> obj\<lparr>ctx_done := True, Channel := (Channel obj)\<lparr>closed := True\<rparr>\<rparr>)\<rparr>"
  have u: "Unsubscribe sub ps = Inr ps1"
    unfolding ps1_def by (rule Unsubscribe_open [OF assms(2,3)])
  have inv1: "bus_inv ps1" by (rule bus_inv_unsubscribe [OF assms(1) u])
  have h1: "heap ps1 sub = Some (obj\<lparr>ctx_done := True, Channel := (Channel obj)\<lparr>closed := True\<rparr>\<rparr>)"
    by (simp add: ps1_def)
  have others: "\<forall>a. a \<noteq> sub \<longrightarrow> heap ps1 a = heap ps a"
    by (simp add: ps1_def)
  have absent: "\<forall>t. sub \<notin> snd ` set (topic_subs (subscribers ps1) t)"
    using unsubscribed_absent [OF assms(1) u] by blast
  have count: "\<forall>t. GetSubscriberCount t ps1 =
        GetSubscriberCount t ps -
          (if t \<in> set (Topics obj) \<and> has_key (topic_subs (subscribers ps) t) (ID obj) then 1 else 0)"
    using count_after_unsubscribe [OF assms(1,2) u] by blast
  have count1: "\<forall>t. sub \<in> snd ` set (topic_subs (subscribers ps) t) \<longrightarrow>
        GetSubscriberCount t ps1 = GetSubscriberCount t ps - 1"
    using count registered_has_key [OF assms(1,2)] by simp
  have run: "\<forall>calls ps2. CallUnsubscribe sub \<notin> set calls \<and> bus_run calls ps1 = Inr ps2 \<longrightarrow>
        heap ps2 sub = heap ps1 sub \<and>
        (\<forall>t. sub \<notin> snd ` set (topic_subs (subscribers ps2) t))"
  proof (intro allI impI)
    fix calls ps2
    assume a: "CallUnsubscribe sub \<notin> set calls \<and> bus_run calls ps1 = Inr ps2"
    then have "CallUnsubscribe sub \<notin> set calls" and "bus_run calls ps1 = Inr ps2"
      by simp_all
    from retired_run [OF inv1 h1 absent this]
    show "heap ps2 sub = heap ps1 sub \<and>
        (\<forall>t. sub \<notin> snd ` set (topic_subs (subscribers ps2) t))"
      using h1 by simp
  qed
  have pub: "\<forall>pick now t payload. \<exists>ps2 sent.
        Publish pick now t payload ps1 = Inr (ps2, sent) \<and> heap ps2 sub = heap ps1 sub"
  proof (intro allI)
    fix pick now t payload
    have "sub \<notin> set (map snd (topic_subs (subscribers ps1) t))"
      using absent by simp
    then show "\<exists>ps2 sent. Publish pick now t payload ps1 = Inr (ps2, sent) \<and> heap ps2 sub = heap ps1 sub"
      unfolding Publish_inv [OF inv1] by simp
  qed
  show ?thesis
    by (intro exI [of _ ps1] conjI u inv1 h1 others absent count1 count run pub)
qed

theorem unsubscribe_closes_queue_witness:
  "bus_inv bus_one \<and>
   (\<exists>ps1. Unsubscribe 0 bus_one = Inr ps1 \<and>
      GetSubscriberCount ''a'' bus_one = 1 \<and> GetSubscriberCount ''a'' ps1 = 0 \<and>
      GetSubscriberCount ''b'' ps1 = 0 \<and>
      (\<exists>ps2 sent. Publish (\<lambda>sub. True) 3 ''a'' ''x'' ps1 = Inr (ps2, sent) \<and>
         heap ps2 0 = heap ps1 0))"
proof -
  let ?obj = "\<lparr>ID = ''s1'', Topics = [''a'', ''b''],
      Channel = \<lparr>buf = [], cap = 1, closed = False\<rparr>, ctx_done = False\<rparr> :: string Subscriber"
  have h: "heap bus_one 0 = Some ?obj" by (simp add: bus_one_heap)
  have o: "\<not> closed (Channel ?obj)" by simp
  have c: "GetSubscriberCount t bus_one = (if t = ''a'' \<or> t = ''b'' then 1 else 0)" for t
    by (simp add: GetSubscriberCount_def bus_one_subs)
  have m: "0 \<in> snd ` set (topic_subs (subscribers bus_one) t)" if "t = ''a'' \<or> t = ''b''" for t
    using that by (auto simp add: bus_one_subs)
  from unsubscribe_closes_queue [OF bus_one_inv h o]
  obtain ps1 where u: "Unsubscribe 0 bus_one = Inr ps1"
    and n: "\<forall>t. 0 \<in> snd ` set (topic_subs (subscribers bus_one) t) \<longrightarrow>
        GetSubscriberCount t ps1 = GetSubscriberCount t bus_one - 1"
    and p: "\<forall>pick now t payload. \<exists>ps2 sent.
        Publish pick now t payload ps1 = Inr (ps2, sent) \<and> heap ps2 0 = heap ps1 0"
    by (elim exE conjE)
  have "GetSubscriberCount ''a'' ps1 = 0" "GetSubscriberCount ''b'' ps1 = 0"
    using n m c by simp_all
  moreover have "\<exists>ps2 sent. Publish (\<lambda>sub. True) 3 ''a'' ''x'' ps1 = Inr (ps2, sent) \<and> heap ps2 0 = heap ps1 0"
    using p by (rule_tac spec [OF spec [OF spec [OF spec [OF p]]]])
  ultimately show ?thesis using u bus_one_inv c by simp
qed

theorem unsubscribe_twice_counterexample:
  "\<exists>ps1. Unsubscribe 0 bus_one = Inr ps1 \<and> Unsubscribe 0 ps1 = Inl CloseOfClosedChannel"
  by (simp add: Unsubscribe_def bus_one_heap close_chan_def)

section \<open>Subscribing again under a registered id\<close>

lemma set_update_distinct:
  "distinct (map fst m) \<Longrightarrow> set (AList.update k v m) = insert (k, v) {p \<in> set m. fst p \<noteq> k}"
proof (induction m)
  case Nil
  then show ?case by simp
next
  case (Cons p m)
  then show ?case by (cases p) (auto simp add: image_iff)
qed

lemma length_update_present: "has_key m k \<Longrightarrow> length (AList.update k v m) = length m"
  by (induction m) (auto simp add: has_key_def)

text \<open>
  Claim C10. In a well-formed state of the bus, let \<open>old\<close> be the subscriber registered
  under id \<open>sid\<close> in a topic, and let \<open>Subscribe\<close> be called with \<open>sid\<close> and a list of
  topics that contains the topic. Then the new subscriber replaces the old one in the
  topic's registry: the entry under \<open>sid\<close> holds the new subscriber, the old one is no
  longer in the topic's registry, and the subscriber count of the topic is unchanged.
  \<open>Publish\<close> to the topic no longer changes the old subscriber's queue. A later
  \<open>Unsubscribe\<close> of the old subscriber succeeds and, for every topic that the two
  share, removes the entry under \<open>sid\<close>, which is the new subscriber's: the new
  subscriber is no longer in the registry of that topic.
\<close>

theorem resubscribe_replaces:
  assumes "bus_inv ps" and "(sid, old) \<in> set (topic_subs (subscribers ps) topic)"
    and "topic \<in> set topics"
  shows "\<exists>new ps1. Subscribe parent_done sid topics ps = (new, ps1) \<and> new \<noteq> old \<and> bus_inv ps1 \<and>
     map_of (topic_subs (subscribers ps1) topic) sid = Some new \<and>
     old \<notin> snd ` set (topic_subs (subscribers ps1) topic) \<and>
     GetSubscriberCount topic ps1 = GetSubscriberCount topic ps \<and>
     heap ps1 old = heap ps old \<and>
     (\<forall>pick now payload. \<exists>ps2 sent.
        Publish pick now topic payload ps1 = Inr (ps2, sent) \<and> heap ps2 old = heap ps1 old) \<and>
     (\<exists>ps3. Unsubscribe old ps1 = Inr ps3 \<and>
        (\<forall>t obj. heap ps old = Some obj \<and> t \<in> set topics \<and> t \<in> set (Topics obj) \<longrightarrow>
           map_of (topic_subs (subscribers ps1) t) sid = Some new \<and>
           map_of (topic_subs (subscribers ps3) t) sid = None \<and>
           new \<notin> snd ` set (topic_subs (subscribers ps3) t)))"
proof -
  define new where "new = nxt ps"
  define ps1 where "ps1 = snd (Subscribe parent_done sid topics ps)"
  have s: "Subscribe parent_done sid topics ps = (new, ps1)"
    by (simp add: new_def ps1_def Subscribe_def Let_def)
  obtain obj where obj: "heap ps old = Some obj" "ID obj = sid" "topic \<in> set (Topics obj)"
      "\<not> closed (Channel obj)"
    using assms(1,2) unfolding bus_inv_def by blast
  have lt: "old < nxt ps" using assms(1) obj(1) unfolding bus_inv_def by blast
  then have ne: "new \<noteq> old" by (simp add: new_def)
  have inv1: "bus_inv ps1" unfolding ps1_def by (rule bus_inv_subscribe [OF assms(1)])
  have subs1: "topic_subs (subscribers ps1) t =
      (if t \<in> set topics then AList.update sid new (topic_subs (subscribers ps) t)
       else topic_subs (subscribers ps) t)" for t
    by (simp add: ps1_def new_def Subscribe_def Let_def topic_subs_subscribe)
  have heap1: "heap ps1 a = (if a = new then
      Some \<lparr>ID = sid, Topics = topics, Channel = make_chan (nat (bufferSize ps)), ctx_done = parent_done\<rparr>
      else heap ps a)" for a
    by (simp add: ps1_def new_def Subscribe_def Let_def)
  have reg: "map_of (topic_subs (subscribers ps1) t) sid = Some new" if "t \<in> set topics" for t
    using that by (simp add: subs1 update_conv')
  have d: "distinct (map fst (topic_subs (subscribers ps) topic))"
    using assms(1) by (simp add: bus_inv_def)
  have gone: "old \<notin> snd ` set (topic_subs (subscribers ps1) topic)"
  proof
    assume "old \<in> snd ` set (topic_subs (subscribers ps1) topic)"
    then obtain i where "(i, old) \<in> set (topic_subs (subscribers ps1) topic)" by auto
    then have "(i, old) \<in> set (topic_subs (subscribers ps) topic)" "i \<noteq> sid"
      using assms(3) ne by (auto simp add: subs1 set_update_distinct [OF d])
    then obtain o' where "heap ps old = Some o'" "ID o' = i"
      using assms(1) unfolding bus_inv_def by blast
    then show False using obj \<open>i \<noteq> sid\<close> by simp
  qed
  have hk: "has_key (topic_subs (subscribers ps) topic) sid"
    using assms(2) by (force simp add: has_key_dom)
  have count: "GetSubscriberCount topic ps1 = GetSubscriberCount topic ps"
    using assms(3) by (simp add: GetSubscriberCount_def subs1 length_update_present [OF hk])
  have h1: "heap ps1 old = heap ps old" using ne by (simp add: heap1)
  have pub: "\<forall>pick now payload. \<exists>ps2 sent.
        Publish pick now topic payload ps1 = Inr (ps2, sent) \<and> heap ps2 old = heap ps1 old"
  proof (intro allI)
    fix pick now payload
    have "old \<notin> set (map snd (topic_subs (subscribers ps1) topic))"
      using gone by simp
    then show "\<exists>ps2 sent. Publish pick now topic payload ps1 = Inr (ps2, sent) \<and>
        heap ps2 old = heap ps1 old"
      unfolding Publish_inv [OF inv1] by simp
  qed
  define ps3 where "ps3 = ps1\<lparr>subscribers := unsubscribe_topics (ID obj) (Topics obj) (subscribers ps1),
            heap := (heap ps1)(old \<mapsto> obj\<lparr>ctx_done := True, Channel := (Channel obj)\<lparr>closed := True\<rparr>\<rparr>)\<rparr>"
  have o1: "heap ps1 old = Some obj" using h1 obj(1) by simp
  have u: "Unsubscribe old ps1 = Inr ps3"
    unfolding ps3_def by (rule Unsubscribe_open [OF o1 obj(4)])
  have inv3: "bus_inv ps3" by (rule bus_inv_unsubscribe [OF inv1 u])
  have subs3: "topic_subs (subscribers ps3) t =
      (if t \<in> set (Topics obj) then AList.delete sid (topic_subs (subscribers ps1) t)
       else topic_subs (subscribers ps1) t)" for t
    by (simp add: ps3_def topic_subs_unsubscribe obj(2))
  have shared: "map_of (topic_subs (subscribers ps1) t) sid = Some new \<and>
           map_of (topic_subs (subscribers ps3) t) sid = None \<and>
           new \<notin> snd ` set (topic_subs (subscribers ps3) t)"
    if t: "t \<in> set topics" "t \<in> set (Topics obj)" for t
  proof -
    have none: "map_of (topic_subs (subscribers ps3) t) sid = None"
      using t by (simp add: subs3 delete_conv')
    have "new \<notin> snd ` set (topic_subs (subscribers ps3) t)"
    proof
      assume "new \<in> snd ` set (topic_subs (subscribers ps3) t)"
      then obtain i where i: "(i, new) \<in> set (topic_subs (subscribers ps3) t)" by auto
      then obtain o' where "heap ps3 new = Some o'" "ID o' = i"
        using inv3 unfolding bus_inv_def by blast
      then have "i = sid" using ne by (auto simp add: ps3_def heap1)
      then show False using i none by (metis map_of_eq_None_iff fst_conv image_eqI)
    qed
    then show ?thesis using reg [OF t(1)] none by simp
  qed
  have after: "\<exists>ps3. Unsubscribe old ps1 = Inr ps3 \<and>
        (\<forall>t obj. heap ps old = Some obj \<and> t \<in> set topics \<and> t \<in> set (Topics obj) \<longrightarrow>
           map_of (topic_subs (subscribers ps1) t) sid = Some new \<and>
           map_of (topic_subs (subscribers ps3) t) sid = None \<and>
           new \<notin> snd ` set (topic_subs (subscribers ps3) t))"
    using u shared obj(1) by (intro exI [of _ ps3]) simp
  show ?thesis
    by (intro exI [of _ new] exI [of _ ps1] conjI s ne inv1 reg [OF assms(3)] gone count h1 pub after)
qed

theorem resubscribe_replaces_witness:
  "bus_inv bus_one \<and> (''s1'', 0) \<in> set (topic_subs (subscribers bus_one) ''a'') \<and>
   (\<exists>new ps1. Subscribe False ''s1'' [''a'', ''c''] bus_one = (new, ps1) \<and> new \<noteq> 0 \<and>
      map_of (topic_subs (subscribers ps1) ''a'') ''s1'' = Some new \<and>
      GetSubscriberCount ''a'' ps1 = 1)"
proof -
  have a: "(''s1'', 0) \<in> set (topic_subs (subscribers bus_one) ''a'')"
    by (simp add: bus_one_subs)
  have b: "''a'' \<in> set [''a'', ''c'']" by simp
  have c: "GetSubscriberCount ''a'' bus_one = 1"
    by (simp add: GetSubscriberCount_def bus_one_subs)
  from resubscribe_replaces [OF bus_one_inv a b, of False]
  obtain new ps1 where "Subscribe False ''s1'' [''a'', ''c''] bus_one = (new, ps1)" "new \<noteq> 0"
    "map_of (topic_subs (subscribers ps1) ''a'') ''s1'' = Some new"
    "GetSubscriberCount ''a'' ps1 = GetSubscriberCount ''a'' bus_one"
    by (elim exE conjE)
  then show ?thesis using bus_one_inv a c by simp
qed

section \<open>Delivery to a full queue\<close>

lemma broadcast_general:
  assumes "encode (message_heap h message) = Some data"
    and "distinct (map fst (clients h))"
    and "distinct (map fst (room_members (rooms h) (Room (message_heap h message))))"
    and "\<forall>c. (if Room (message_heap h message) \<noteq> [] then in_room h (Room (message_heap h message)) c
              else has_key (clients h) c) \<longrightarrow> \<not> closed (send (client_heap h c))"
  shows "broadcastMessage encode message h =
     Inr (h\<lparr>client_heap := (\<lambda>c.
        if (if Room (message_heap h message) \<noteq> [] then in_room h (Room (message_heap h message)) c
            else has_key (clients h) c) \<and>
           length (buf (send (client_heap h c))) < cap (send (client_heap h c))
        then (client_heap h c)\<lparr>send := (send (client_heap h c))
               \<lparr>buf := buf (send (client_heap h c)) @ [data]\<rparr>\<rparr>
        else client_heap h c)\<rparr>)"
proof (cases "Room (message_heap h message) \<noteq> []")
  case True
  show ?thesis
  proof (cases "map_of (rooms h) (Room (message_heap h message))")
    case None
    then have "\<not> in_room h (Room (message_heap h message)) c" for c
      by (simp add: in_room_def room_members_def)
    then show ?thesis using None True assms(1)
      by (simp add: broadcastMessage_def)
  next
    case (Some cl)
    then have cl: "room_members (rooms h) (Room (message_heap h message)) = cl"
      by (simp add: room_members_def)
    have "\<forall>c \<in> set (map fst cl). \<not> closed (send (client_heap h c))"
      using assms(4) True cl by (simp add: in_room_keys)
    from send_each_open [OF assms(3) [unfolded cl] this, of data]
    show ?thesis using Some True assms(1) cl
      by (simp add: broadcastMessage_def in_room_keys)
  qed
next
  case False
  have "\<forall>c \<in> set (map fst (clients h)). \<not> closed (send (client_heap h c))"
    using assms(4) False by (simp add: has_key_dom)
  from send_each_open [OF assms(2) this, of data]
  show ?thesis using False assms(1)
    by (simp add: broadcastMessage_def has_key_dom)
qed

lemma broadcast_drops:
  assumes "encode (message_heap h message) = Some data"
    and "distinct (map fst (clients h))"
    and "distinct (map fst (room_members (rooms h) (Room (message_heap h message))))"
    and "\<forall>c. (if Room (message_heap h message) \<noteq> [] then in_room h (Room (message_heap h message)) c
              else has_key (clients h) c) \<longrightarrow> \<not> closed (send (client_heap h c))"
  shows "\<exists>h'. broadcastMessage encode message h = Inr h' \<and>
     (\<forall>c. cap (send (client_heap h c)) \<le> length (buf (send (client_heap h c))) \<longrightarrow>
        client_heap h' c = client_heap h c) \<and>
     (\<forall>c. cap (send (client_heap h' c)) = cap (send (client_heap h c))) \<and>
     (\<forall>c. length (buf (send (client_heap h c))) \<le> cap (send (client_heap h c)) \<longrightarrow>
        length (buf (send (client_heap h' c))) \<le> cap (send (client_heap h' c))) \<and>
     (\<forall>c. (if Room (message_heap h message) \<noteq> [] then in_room h (Room (message_heap h message)) c
           else has_key (clients h) c) \<and>
          length (buf (send (client_heap h c))) < cap (send (client_heap h c)) \<longrightarrow>
        buf (send (client_heap h' c)) = buf (send (client_heap h c)) @ [data])"
  unfolding broadcast_general [where encode = encode and h = h and message = message
      and data = data, OF assms]
  by (intro exI conjI allI impI, rule refl) simp_all

lemma publish_drops:
  assumes "bus_inv ps"
  shows "\<exists>ps' sent. Publish pick now topic payload ps = Inr (ps', sent) \<and>
     (\<forall>sub obj. heap ps sub = Some obj \<and> cap (Channel obj) \<le> length (buf (Channel obj)) \<longrightarrow>
        heap ps' sub = Some obj) \<and>
     (\<forall>sub obj. heap ps sub = Some obj \<longrightarrow>
        (\<exists>obj'. heap ps' sub = Some obj' \<and> cap (Channel obj') = cap (Channel obj) \<and>
           (length (buf (Channel obj)) \<le> cap (Channel obj) \<longrightarrow>
              length (buf (Channel obj')) \<le> cap (Channel obj')))) \<and>
     (\<forall>sub obj. sub \<in> snd ` set (topic_subs (subscribers ps) topic) \<and> heap ps sub = Some obj \<and>
          \<not> ctx_done obj \<and> length (buf (Channel obj)) < cap (Channel obj) \<longrightarrow>
        heap ps' sub = Some (obj\<lparr>Channel := (Channel obj)\<lparr>buf := buf (Channel obj) @
            [\<lparr>Topic = topic, Payload = payload, Timestamp = now\<rparr>]\<rparr>\<rparr>))"
proof -
  let ?ev = "\<lparr>Topic = topic, Payload = payload, Timestamp = now\<rparr>"
  from publish_general [OF assms, of pick now topic payload]
  obtain ps' sent where p: "Publish pick now topic payload ps = Inr (ps', sent)"
    and a: "\<forall>sub obj. heap ps sub = Some obj \<longrightarrow>
        heap ps' sub = Some obj \<or>
        heap ps' sub = Some (obj\<lparr>Channel := (Channel obj)\<lparr>buf := buf (Channel obj) @ [?ev]\<rparr>\<rparr>)"
    and b: "\<forall>sub obj. sub \<in> snd ` set (topic_subs (subscribers ps) topic) \<and> heap ps sub = Some obj \<and>
          \<not> ctx_done obj \<and> length (buf (Channel obj)) < cap (Channel obj) \<longrightarrow>
        heap ps' sub = Some (obj\<lparr>Channel := (Channel obj)\<lparr>buf := buf (Channel obj) @ [?ev]\<rparr>\<rparr>)"
    and d: "\<forall>sub obj. heap ps sub = Some obj \<and> cap (Channel obj) \<le> length (buf (Channel obj)) \<longrightarrow>
        heap ps' sub = Some obj"
    by (elim exE conjE)
  have c: "\<exists>obj'. heap ps' sub = Some obj' \<and> cap (Channel obj') = cap (Channel obj) \<and>
           (length (buf (Channel obj)) \<le> cap (Channel obj) \<longrightarrow>
              length (buf (Channel obj')) \<le> cap (Channel obj'))"
    if h: "heap ps sub = Some obj" for sub obj
  proof (cases "length (buf (Channel obj)) < cap (Channel obj)")
    case True
    then show ?thesis using a h by fastforce
  next
    case False
    then have "heap ps' sub = Some obj" using d h by simp
    then show ?thesis by simp
  qed
  show ?thesis
    using p b c d by (intro exI [of _ ps'] exI [of _ sent] conjI allI impI) simp_all
qed

lemma busy_hub_fields:
  "clients busy_hub = [(1, True), (2, True), (3, True)]"
  "rooms busy_hub = [(''chat'', [(1, True), (2, True)])]"
  "message_heap busy_hub = new_messages"
  by (simp_all add: busy_hub_def chat_hub_clients chat_hub_rooms chat_hub_messages)

lemma busy_hub_heap:
  "client_heap busy_hub c =
     (if c = 1 then \<lparr>client_ID = ''id'', UserID = ''user'',
                     send = \<lparr>buf = replicate 256 ''queued'', cap = 256, closed = False\<rparr>,
                     client_rooms = [(''chat'', True)]\<rparr>
      else if c = 2 then \<lparr>client_ID = ''id'', UserID = ''user'',
                     send = \<lparr>buf = [], cap = 256, closed = False\<rparr>,
                     client_rooms = [(''chat'', True)]\<rparr>
      else \<lparr>client_ID = ''id'', UserID = ''user'',
                     send = \<lparr>buf = [], cap = 256, closed = False\<rparr>, client_rooms = []\<rparr>)"
  by (simp add: busy_hub_def chat_hub_heap NewClient_def make_chan_def)

lemma bus_full_publish:
  "Publish (\<lambda>sub. True) 0 ''a'' ''x'' bus_one = Inr (bus_full, 1)"
proof -
  obtain ps' sent where p: "Publish (\<lambda>sub. True) 0 ''a'' ''x'' bus_one = Inr (ps', sent)"
    using publish_general [OF bus_one_inv] by blast
  then have "bus_full = ps'" by (simp add: bus_full_def)
  moreover have "sent = 1"
    using p unfolding Publish_inv [OF bus_one_inv] by (simp add: bus_one_subs bus_one_heap)
  ultimately show ?thesis using p by simp
qed

lemma bus_full_inv: "bus_inv bus_full"
  by (rule bus_inv_publish [OF bus_one_inv bus_full_publish])

lemma bus_full_heap:
  "heap bus_full 0 = Some \<lparr>ID = ''s1'', Topics = [''a'', ''b''],
      Channel = \<lparr>buf = [\<lparr>Topic = ''a'', Payload = ''x'', Timestamp = 0\<rparr>], cap = 1, closed = False\<rparr>,
      ctx_done = False\<rparr>"
proof -
  have "Inr (bus_full, 1) = Publish (\<lambda>sub. True) 0 ''a'' ''x'' bus_one"
    by (simp add: bus_full_publish)
  then have "heap bus_full = heap (fst (projr (Publish (\<lambda>sub. True) 0 ''a'' ''x'' bus_one)))"
    by (metis fst_conv sum.sel(2))
  then show ?thesis
    unfolding Publish_inv [OF bus_one_inv] by (simp add: bus_one_subs bus_one_heap)
qed

text \<open>
  Claim C1. When the hub broadcasts a message (to a room or to all sessions) whose
  encoding succeeds, and when the bus publishes an event, in a well-formed state (maps
  with one entry per key) with every recipient's queue open: the call returns (its sends are non-blocking and it does not panic); a recipient
  whose queue is at its bound is left exactly as it was, so the event is dropped for it;
  no queue's bound changes and a queue within its bound stays within it; and every other
  recipient whose queue has room (for the bus: and whose context is not cancelled) has
  the event appended, whatever the state of the other recipients' queues.
\<close>

theorem full_queue_drops_delivery:
  "((encode (message_heap h message) = Some data \<and>
     distinct (map fst (clients h)) \<and>
     distinct (map fst (room_members (rooms h) (Room (message_heap h message)))) \<and>
     (\<forall>c. (if Room (message_heap h message) \<noteq> [] then in_room h (Room (message_heap h message)) c
           else has_key (clients h) c) \<longrightarrow> \<not> closed (send (client_heap h c)))) \<longrightarrow>
    (\<exists>h'. broadcastMessage encode message h = Inr h' \<and>
       (\<forall>c. cap (send (client_heap h c)) \<le> length (buf (send (client_heap h c))) \<longrightarrow>
          client_heap h' c = client_heap h c) \<and>
       (\<forall>c. cap (send (client_heap h' c)) = cap (send (client_heap h c))) \<and>
       (\<forall>c. length (buf (send (client_heap h c))) \<le> cap (send (client_heap h c)) \<longrightarrow>
          length (buf (send (client_heap h' c))) \<le> cap (send (client_heap h' c))) \<and>
       (\<forall>c. (if Room (message_heap h message) \<noteq> [] then in_room h (Room (message_heap h message)) c
             else has_key (clients h) c) \<and>
            length (buf (send (client_heap h c))) < cap (send (client_heap h c)) \<longrightarrow>
          buf (send (client_heap h' c)) = buf (send (client_heap h c)) @ [data]))) \<and>
   (bus_inv ps \<longrightarrow>
    (\<exists>ps' sent. Publish pick now topic payload ps = Inr (ps', sent) \<and>
       (\<forall>sub obj. heap ps sub = Some obj \<and> cap (Channel obj) \<le> length (buf (Channel obj)) \<longrightarrow>
          heap ps' sub = Some obj) \<and>
       (\<forall>sub obj. heap ps sub = Some obj \<longrightarrow>
          (\<exists>obj'. heap ps' sub = Some obj' \<and> cap (Channel obj') = cap (Channel obj) \<and>
             (length (buf (Channel obj)) \<le> cap (Channel obj) \<longrightarrow>
                length (buf (Channel obj')) \<le> cap (Channel obj')))) \<and>
       (\<forall>sub obj. sub \<in> snd ` set (topic_subs (subscribers ps) topic) \<and> heap ps sub = Some obj \<and>
            \<not> ctx_done obj \<and> length (buf (Channel obj)) < cap (Channel obj) \<longrightarrow>
          heap ps' sub = Some (obj\<lparr>Channel := (Channel obj)\<lparr>buf := buf (Channel obj) @
              [\<lparr>Topic = topic, Payload = payload, Timestamp = now\<rparr>]\<rparr>\<rparr>))))"
proof (intro conjI impI)
  assume a: "encode (message_heap h message) = Some data \<and>
     distinct (map fst (clients h)) \<and>
     distinct (map fst (room_members (rooms h) (Room (message_heap h message)))) \<and>
     (\<forall>c. (if Room (message_heap h message) \<noteq> [] then in_room h (Room (message_heap h message)) c
           else has_key (clients h) c) \<longrightarrow> \<not> closed (send (client_heap h c)))"
  show "\<exists>h'. broadcastMessage encode message h = Inr h' \<and>
       (\<forall>c. cap (send (client_heap h c)) \<le> length (buf (send (client_heap h c))) \<longrightarrow>
          client_heap h' c = client_heap h c) \<and>
       (\<forall>c. cap (send (client_heap h' c)) = cap (send (client_heap h c))) \<and>
       (\<forall>c. length (buf (send (client_heap h c))) \<le> cap (send (client_heap h c)) \<longrightarrow>
          length (buf (send (client_heap h' c))) \<le> cap (send (client_heap h' c))) \<and>
       (\<forall>c. (if Room (message_heap h message) \<noteq> [] then in_room h (Room (message_heap h message)) c
             else has_key (clients h) c) \<and>
            length (buf (send (client_heap h c))) < cap (send (client_heap h c)) \<longrightarrow>
          buf (send (client_heap h' c)) = buf (send (client_heap h c)) @ [data])"
    by (rule broadcast_drops) (simp_all add: a)
next
  assume "bus_inv ps"
  then show "\<exists>ps' sent. Publish pick now topic payload ps = Inr (ps', sent) \<and>
       (\<forall>sub obj. heap ps sub = Some obj \<and> cap (Channel obj) \<le> length (buf (Channel obj)) \<longrightarrow>
          heap ps' sub = Some obj) \<and>
       (\<forall>sub obj. heap ps sub = Some obj \<longrightarrow>
          (\<exists>obj'. heap ps' sub = Some obj' \<and> cap (Channel obj') = cap (Channel obj) \<and>
             (length (buf (Channel obj)) \<le> cap (Channel obj) \<longrightarrow>
                length (buf (Channel obj')) \<le> cap (Channel obj')))) \<and>
       (\<forall>sub obj. sub \<in> snd ` set (topic_subs (subscribers ps) topic) \<and> heap ps sub = Some obj \<and>
            \<not> ctx_done obj \<and> length (buf (Channel obj)) < cap (Channel obj) \<longrightarrow>
          heap ps' sub = Some (obj\<lparr>Channel := (Channel obj)\<lparr>buf := buf (Channel obj) @
              [\<lparr>Topic = topic, Payload = payload, Timestamp = now\<rparr>]\<rparr>\<rparr>))"
    by (rule publish_drops)
qed

theorem full_queue_drops_delivery_witness:
  "(\<exists>h'. broadcastMessage encode_ok 0 busy_hub = Inr h' \<and>
      client_heap h' 1 = client_heap busy_hub 1 \<and>
      length (buf (send (client_heap h' 1))) = 256 \<and>
      buf (send (client_heap h' 2)) = [''note  hi'']) \<and>
   bus_inv bus_full \<and>
   (\<exists>ps' sent. Publish (\<lambda>sub. True) 9 ''a'' ''y'' bus_full = Inr (ps', sent) \<and>
      heap ps' 0 = heap bus_full 0)"
proof -
  have a: "encode_ok (message_heap busy_hub 0) = Some ''note  hi'' \<and>
     distinct (map fst (clients busy_hub)) \<and>
     distinct (map fst (room_members (rooms busy_hub) (Room (message_heap busy_hub 0)))) \<and>
     (\<forall>c. (if Room (message_heap busy_hub 0) \<noteq> [] then in_room busy_hub (Room (message_heap busy_hub 0)) c
           else has_key (clients busy_hub) c) \<longrightarrow> \<not> closed (send (client_heap busy_hub c)))"
    by (simp add: busy_hub_fields busy_hub_heap new_messages_def encode_ok_def room_members_def)
  note t = full_queue_drops_delivery [where encode = encode_ok and h = busy_hub and message = 0
      and data = "''note  hi''" and ps = bus_full and pick = "\<lambda>sub. True" and now = 9
      and topic = "''a''" and payload = "''y''"]
  from t [THEN conjunct1, rule_format, OF a]
  obtain h' where b: "broadcastMessage encode_ok 0 busy_hub = Inr h'"
    and f: "\<forall>c. cap (send (client_heap busy_hub c)) \<le> length (buf (send (client_heap busy_hub c))) \<longrightarrow>
          client_heap h' c = client_heap busy_hub c"
    and g: "\<forall>c. (if Room (message_heap busy_hub 0) \<noteq> [] then in_room busy_hub (Room (message_heap busy_hub 0)) c
             else has_key (clients busy_hub) c) \<and>
            length (buf (send (client_heap busy_hub c))) < cap (send (client_heap busy_hub c)) \<longrightarrow>
          buf (send (client_heap h' c)) = buf (send (client_heap busy_hub c)) @ [''note  hi'']"
    by (elim exE conjE)
  have one: "client_heap h' 1 = client_heap busy_hub 1"
    using f by (simp add: busy_hub_heap)
  have two: "buf (send (client_heap h' 2)) = [''note  hi'']"
    using g [rule_format, of 2]
    by (simp add: busy_hub_fields busy_hub_heap new_messages_def has_key_def)
  from t [THEN conjunct2, rule_format, OF bus_full_inv]
  obtain ps' sent where p: "Publish (\<lambda>sub. True) 9 ''a'' ''y'' bus_full = Inr (ps', sent)"
    and d: "\<forall>sub obj. heap bus_full sub = Some obj \<and> cap (Channel obj) \<le> length (buf (Channel obj)) \<longrightarrow>
          heap ps' sub = Some obj"
    by (elim exE conjE)
  have "heap ps' 0 = heap bus_full 0"
    using d bus_full_heap by simp
  then show ?thesis using b one two p bus_full_inv by (simp add: busy_hub_heap)
qed

section \<open>Closing the outputs of Pipeline and Fanout\<close>

text \<open>
  The goroutine of a \<open>Pipeline\<close> closes its output and its error channel when its input
  is closed and drained, and when its context is cancelled. The goroutine of a \<open>Fanout\<close>
  closes its outputs when its context is cancelled.
\<close>

lemma Pipeline_run_input_closed:
  assumes "buf (pipe_input p) = []" and "closed (pipe_input p)"
    and "\<not> closed (pipe_output p)" and "\<not> closed (pipe_errors p)"
  shows "Pipeline_run pick n p =
     Returned (p\<lparr>pipe_output := (pipe_output p)\<lparr>closed := True\<rparr>,
                 pipe_errors := (pipe_errors p)\<lparr>closed := True\<rparr>\<rparr>)"
  using assms by (subst Pipeline_run.simps) (simp add: close_outputs_def close_chan_def)

lemma Pipeline_run_cancelled:
  assumes "pipeline_done p" and "buf (pipe_input p) = []" and "\<not> closed (pipe_input p)"
    and "\<not> closed (pipe_output p)" and "\<not> closed (pipe_errors p)"
  shows "Pipeline_run pick n p =
     Returned (p\<lparr>pipe_output := (pipe_output p)\<lparr>closed := True\<rparr>,
                 pipe_errors := (pipe_errors p)\<lparr>closed := True\<rparr>\<rparr>)"
  using assms by (subst Pipeline_run.simps) (simp add: close_outputs_def close_chan_def)

lemma Fanout_run_cancelled:
  assumes "fanout_done f" and "buf (input f) = []" and "\<not> closed (input f)"
    and "\<forall>out \<in> set (outputs f). \<not> closed out"
  shows "\<exists>outs. Fanout_run pick n f = Returned (f\<lparr>outputs := outs\<rparr>) \<and>
     length outs = length (outputs f) \<and> (\<forall>out \<in> set outs. closed out)"
proof -
  have "\<exists>ys. close_all xs = Inr ys \<and> length ys = length xs \<and> (\<forall>out \<in> set ys. closed out)"
    if "\<forall>out \<in> set xs. \<not> closed out" for xs :: "'a Event chan list"
    using that by (induction xs) (auto simp add: close_chan_def)
  then obtain outs where "close_all (outputs f) = Inr outs" "length outs = length (outputs f)"
    "\<forall>out \<in> set outs. closed out"
    using assms(4) by blast
  then show ?thesis using assms(1-3)
    by (intro exI [of _ outs]) (simp add: Fanout_run.simps)
qed

text \<open>
  Claim C8 says that the goroutine of a \<open>Fanout\<close> closes all outputs when its input
  channel closes as well. It does not: on a closed and drained input \<open>Fanout.run\<close>
  returns and leaves the outputs open. This is so when the context is not cancelled,
  and also after \<open>Fanout.Close\<close> (which cancels the context and then closes the input)
  when the \<open>select\<close> picks the receive from the closed input.
\<close>

theorem fanout_input_closed_outputs_open:
  "Fanout_run (\<lambda>n. True) 0
     \<lparr>input = \<lparr>buf = [], cap = 4, closed = True\<rparr>,
      outputs = [\<lparr>buf = [], cap = 4, closed = False\<rparr>],
      fanout_done = False\<rparr>
   = Returned
     \<lparr>input = \<lparr>buf = [], cap = 4, closed = True\<rparr>,
      outputs = [\<lparr>buf = [] :: string Event list, cap = 4, closed = False\<rparr>],
      fanout_done = False\<rparr> \<and>
   Fanout_run (\<lambda>n. False) 0
     \<lparr>input = \<lparr>buf = [], cap = 4, closed = True\<rparr>,
      outputs = [\<lparr>buf = [], cap = 4, closed = False\<rparr>],
      fanout_done = True\<rparr>
   = Returned
     \<lparr>input = \<lparr>buf = [], cap = 4, closed = True\<rparr>,
      outputs = [\<lparr>buf = [] :: string Event list, cap = 4, closed = False\<rparr>],
      fanout_done = True\<rparr>"
  by (simp add: Fanout_run.simps [of _ 0])

end
